theory Spec2Isabelle
  imports Main "HOL-Library.Sublist"
begin

section \<open>idlecat: a pass-through filter that watches the liveliness of its input\<close>

text \<open>
  The program (\<^verbatim>\<open>src/idlecat.c\<close>) copies standard input to standard output and keeps
  two clocks, from which it classifies the stream as idle or active; it runs shell
  commands on the transitions and at end of input.

  The embedding follows the source function by function. What the operating system and
  the C library give back (the results of \<^verbatim>\<open>getopt\<close>, \<^verbatim>\<open>fcntl\<close>, \<^verbatim>\<open>select\<close>,
  \<^verbatim>\<open>time\<close>, \<^verbatim>\<open>read\<close> and \<^verbatim>\<open>write\<close>) is an input of the model; what the program does to
  the outside (bytes written, commands run, diagnostics) is appended to a trace, in
  program order. Times are \<^verbatim>\<open>time_t\<close> values; they and the differences the source takes of
  them are modelled as unbounded integers (no clock reading comes near the 64-bit
  limits).
\<close>

subsection \<open>Constants and configuration\<close>

definition EXIT_SUCCESS :: int where "EXIT_SUCCESS = 0"
definition EXIT_FAILURE :: int where "EXIT_FAILURE = 1"

definition INT_MIN :: int where "INT_MIN = - 2147483648"
definition INT_MAX :: int where "INT_MAX = 2147483647"

definition DEFAULT_IDLE_TIMEOUT :: int where "DEFAULT_IDLE_TIMEOUT = 5"
definition DEFAULT_IDLE_TO_ACTIVE_THRESHOLD :: int where
  "DEFAULT_IDLE_TO_ACTIVE_THRESHOLD = 2 * 60"
definition DEFAULT_ACTIVE_TO_IDLE_THRESHOLD :: int where
  "DEFAULT_ACTIVE_TO_IDLE_THRESHOLD = 3 * 60"

text \<open>The struct \<^verbatim>\<open>Config\<close>; a \<^verbatim>\<open>NULL\<close> command is \<open>None\<close>.\<close>

record Config =
  idle_timeout :: int
  idle_to_active_threshold :: int
  active_to_idle_threshold :: int
  idle_to_active_command :: "string option"
  active_to_idle_command :: "string option"
  eof_command :: "string option"

subsection \<open>The C library's \<^verbatim>\<open>atoi\<close>\<close>

text \<open>
  \<^verbatim>\<open>atoi\<close> (ISO C, 7.22.1) skips leading white space, takes an optional sign and then
  the longest run of decimal digits, and returns their value; with no digit it returns 0.
  Whatever follows the digits is ignored. When the value does not fit an \<^verbatim>\<open>int\<close> the
  behaviour is undefined: the model returns \<open>None\<close> there.
\<close>

definition isspace :: "char \<Rightarrow> bool" where
  "isspace c = (c = CHR '' '' \<or> (9 \<le> (of_char c :: nat) \<and> (of_char c :: nat) \<le> 13))"

definition isdigit :: "char \<Rightarrow> bool" where
  "isdigit c = (48 \<le> (of_char c :: nat) \<and> (of_char c :: nat) \<le> 57)"

fun digits_value :: "nat \<Rightarrow> string \<Rightarrow> nat" where
  "digits_value acc [] = acc"
| "digits_value acc (c # cs) =
     (if isdigit c then digits_value (10 * acc + (of_char c - 48)) cs else acc)"

definition atoi_value :: "string \<Rightarrow> int" where
  "atoi_value s =
     (case dropWhile isspace s of
        [] \<Rightarrow> 0
      | c # cs \<Rightarrow>
          if c = CHR ''-'' then - int (digits_value 0 cs)
          else if c = CHR ''+'' then int (digits_value 0 cs)
          else int (digits_value 0 (c # cs)))"

definition atoi :: "string \<Rightarrow> int option" where
  "atoi s = (let v = atoi_value s in if INT_MIN \<le> v \<and> v \<le> INT_MAX then Some v else None)"

subsection \<open>\<^verbatim>\<open>print_usage\<close> and \<^verbatim>\<open>parse_args\<close>\<close>

text \<open>
  The result of \<^verbatim>\<open>parse_args\<close>: the configuration, or the process has exited with a
  status after writing lines to the error stream, or (an \<^verbatim>\<open>atoi\<close> out of range) the C
  standard says nothing.
\<close>

datatype parse_result =
    Parsed Config
  | Parse_exit int "string list"
  | Parse_undefined

text \<open>The lines \<^verbatim>\<open>print_usage\<close> writes to the error stream (each without its newline).\<close>

definition print_usage :: "string \<Rightarrow> parse_result" where
  "print_usage program_name =
     Parse_exit EXIT_FAILURE
       [''Usage: '' @ program_name @ '' [options]'',
        ''Options:'',
        ''  -t SECONDS   Set idle timeout (default: 5 seconds)'',
        ''  -i SECONDS   Set idle to active threshold (default: 120 seconds)'',
        ''  -a SECONDS   Set active to idle threshold (default: 180 seconds)'',
        ''  -I COMMAND   Command to run on transition from idle to active'',
        ''  -A COMMAND   Command to run on transition from active to idle'',
        ''  -E COMMAND   Command to run on EOF'',
        ''  -h           Show this help message'']"

text \<open>
  The \<^verbatim>\<open>while\<close> loop of \<^verbatim>\<open>parse_args\<close>. Its input is what the successive calls of
  \<^verbatim>\<open>getopt(argc, argv, "t:i:a:I:A:E:h")\<close> return before \<open>-1\<close>: the option character
  (\<^verbatim>\<open>?\<close> for an unknown option or a missing argument) and \<^verbatim>\<open>optarg\<close>.
\<close>

fun parse_loop :: "string \<Rightarrow> Config \<Rightarrow> (char \<times> string) list \<Rightarrow> parse_result" where
  "parse_loop program_name config [] = Parsed config"
| "parse_loop program_name config ((opt, optarg) # rest) =
     (if opt = CHR ''t'' then
        (case atoi optarg of
           None \<Rightarrow> Parse_undefined
         | Some v \<Rightarrow>
             let config = config\<lparr>idle_timeout := v\<rparr>
             in if idle_timeout config \<le> 0
                then Parse_exit EXIT_FAILURE [''Idle timeout must be positive'']
                else parse_loop program_name config rest)
      else if opt = CHR ''i'' then
        (case atoi optarg of
           None \<Rightarrow> Parse_undefined
         | Some v \<Rightarrow>
             let config = config\<lparr>idle_to_active_threshold := v\<rparr>
             in if idle_to_active_threshold config \<le> 0
                then Parse_exit EXIT_FAILURE [''Idle to active threshold must be positive'']
                else parse_loop program_name config rest)
      else if opt = CHR ''a'' then
        (case atoi optarg of
           None \<Rightarrow> Parse_undefined
         | Some v \<Rightarrow>
             let config = config\<lparr>active_to_idle_threshold := v\<rparr>
             in if active_to_idle_threshold config \<le> 0
                then Parse_exit EXIT_FAILURE [''Active to idle threshold must be positive'']
                else parse_loop program_name config rest)
      else if opt = CHR ''I'' then
        parse_loop program_name (config\<lparr>idle_to_active_command := Some optarg\<rparr>) rest
      else if opt = CHR ''A'' then
        parse_loop program_name (config\<lparr>active_to_idle_command := Some optarg\<rparr>) rest
      else if opt = CHR ''E'' then
        parse_loop program_name (config\<lparr>eof_command := Some optarg\<rparr>) rest
      else print_usage program_name)"

definition default_config :: Config where
  "default_config =
     \<lparr>idle_timeout = DEFAULT_IDLE_TIMEOUT,
      idle_to_active_threshold = DEFAULT_IDLE_TO_ACTIVE_THRESHOLD,
      active_to_idle_threshold = DEFAULT_ACTIVE_TO_IDLE_THRESHOLD,
      idle_to_active_command = None,
      active_to_idle_command = None,
      eof_command = None\<rparr>"

definition parse_args :: "string \<Rightarrow> (char \<times> string) list \<Rightarrow> parse_result" where
  "parse_args program_name opts = parse_loop program_name default_config opts"

subsection \<open>The environment of the loop and the trace of effects\<close>

datatype errno = EINTR | EAGAIN | EWOULDBLOCK | EBADF | EIO | EPIPE | ENOSPC

text \<open>
  What \<^verbatim>\<open>read\<close> returns: the bytes it stored in the buffer (their number is
  \<^verbatim>\<open>bytes_read\<close>, at most \<^verbatim>\<open>BUFFER_SIZE\<close>; none at end of stream), or \<open>-1\<close> with
  \<^verbatim>\<open>errno\<close> set.
\<close>

datatype read_result = Read_ok string | Read_err errno

text \<open>
  What a call of \<^verbatim>\<open>write\<close> does: the output accepts up to \<open>n\<close> bytes now (the call
  returns the smaller of \<open>n\<close> and the count it was given), or the call returns \<open>-1\<close>
  with \<^verbatim>\<open>errno\<close> set.
\<close>

datatype write_result = Write_ok nat | Write_err errno

text \<open>One pass of the \<^verbatim>\<open>while\<close> loop of \<^verbatim>\<open>main\<close> sees these results.\<close>

record iter_env =
  select_ret :: int
  fd_isset :: bool
  time_now :: int
  read_res :: read_result
  write_res :: "write_result list"

text \<open>The loop's variables (\<^verbatim>\<open>main\<close>, lines 107 to 110).\<close>

record vars =
  last_data_time :: int
  state_start_time :: int
  is_idle :: bool
  eof_reached :: bool

datatype action = Idle_to_active | Active_to_idle | On_eof

text \<open>
  The effects, in program order. A \<open>Ev_system\<close> event records which of the three calls of
  \<^verbatim>\<open>system\<close> it was, the command, and the values the loop's variables had at the moment
  of the call.
\<close>

datatype event =
    Ev_read read_result
  | Ev_write string
  | Ev_system action string vars
  | Ev_perror string
  | Ev_stderr string

record state = vars +
  trace :: "event list"

definition snapshot :: "state \<Rightarrow> vars" where
  "snapshot st =
     \<lparr>last_data_time = last_data_time st, state_start_time = state_start_time st,
      is_idle = is_idle st, eof_reached = eof_reached st\<rparr>"

definition emit :: "event \<Rightarrow> state \<Rightarrow> state" where
  "emit ev st = st\<lparr>trace := trace st @ [ev]\<rparr>"

text \<open>
  \<^verbatim>\<open>system\<close> runs the command and returns when it has ended. The command is given the
  standard input and output of the process; what it writes and reads there is not the
  program's doing and is no part of the trace: the streams, further down, take it as a
  parameter.
\<close>

definition system :: "action \<Rightarrow> string \<Rightarrow> state \<Rightarrow> state" where
  "system a cmd st = emit (Ev_system a cmd (snapshot st)) st"

definition perror :: "string \<Rightarrow> state \<Rightarrow> state" where
  "perror s st = emit (Ev_perror s) st"

text \<open>
  Where a run of the model stands: the process goes on (it is at the head of the loop,
  or a block of it has finished), it has exited with a status, the results given for
  \<^verbatim>\<open>write\<close> ran out while the chunk was not yet written (the process is still in the
  write loop), or the behaviour is undefined.
\<close>

datatype outcome =
    Continue state
  | Exit int "event list"
  | In_write state
  | Undefined

subsection \<open>The body of the loop\<close>

text \<open>Lines 136 to 147: the write loop; \<open>buffer\<close> holds the \<^verbatim>\<open>bytes_read\<close> bytes read.\<close>

fun write_loop :: "string \<Rightarrow> nat \<Rightarrow> write_result list \<Rightarrow> state \<Rightarrow> outcome" where
  "write_loop buffer bytes_written [] st =
     (if bytes_written < length buffer then In_write st else Continue st)"
| "write_loop buffer bytes_written (r # rs) st =
     (if bytes_written < length buffer then
        (case r of
           Write_err e \<Rightarrow>
             if e = EINTR then write_loop buffer bytes_written rs st
             else Exit EXIT_FAILURE (trace (perror ''write'' st))
         | Write_ok n \<Rightarrow>
             let ret = min n (length buffer - bytes_written)
             in write_loop buffer (bytes_written + ret) rs
                  (emit (Ev_write (take ret (drop bytes_written buffer))) st))
      else Continue st)"

text \<open>Lines 149 to 161: data was read and written.\<close>

definition data_observed :: "Config \<Rightarrow> int \<Rightarrow> state \<Rightarrow> state" where
  "data_observed config current_time st =
     (let st1 =
        (if is_idle st then
           let idle_duration = current_time - state_start_time st;
               st' = (case idle_to_active_command config of
                        Some cmd \<Rightarrow>
                          if idle_duration \<ge> idle_to_active_threshold config
                          then system Idle_to_active cmd st else st
                      | None \<Rightarrow> st)
           in st'\<lparr>is_idle := False, state_start_time := current_time\<rparr>
         else st)
      in st1\<lparr>last_data_time := current_time\<rparr>)"

text \<open>Lines 162 to 167: end of stream.\<close>

definition eof_observed :: "Config \<Rightarrow> state \<Rightarrow> state" where
  "eof_observed config st =
     (let st1 = st\<lparr>eof_reached := True\<rparr>
      in case eof_command config of Some cmd \<Rightarrow> system On_eof cmd st1 | None \<Rightarrow> st1)"

text \<open>Lines 131 to 175: the input is readable.\<close>

definition process_input :: "Config \<Rightarrow> iter_env \<Rightarrow> int \<Rightarrow> state \<Rightarrow> outcome" where
  "process_input config e current_time st =
     (let st0 = emit (Ev_read (read_res e)) st
      in case read_res e of
           Read_ok buffer \<Rightarrow>
             if length buffer > 0 then
               (case write_loop buffer 0 (write_res e) st0 of
                  Continue st1 \<Rightarrow> Continue (data_observed config current_time st1)
                | r \<Rightarrow> r)
             else Continue (eof_observed config st0)
         | Read_err en \<Rightarrow>
             if en \<noteq> EAGAIN \<and> en \<noteq> EWOULDBLOCK
             then Exit EXIT_FAILURE (trace (perror ''read'' st0))
             else Continue st0)"

text \<open>Lines 177 to 189: the check for the transition to idle.\<close>

definition idle_check :: "Config \<Rightarrow> int \<Rightarrow> state \<Rightarrow> state" where
  "idle_check config current_time st =
     (let time_since_last_data = current_time - last_data_time st
      in if \<not> is_idle st \<and> time_since_last_data \<ge> idle_timeout config then
           let active_duration = current_time - state_start_time st;
               st' = (case active_to_idle_command config of
                        Some cmd \<Rightarrow>
                          if active_duration \<ge> active_to_idle_threshold config
                          then system Active_to_idle cmd st else st
                      | None \<Rightarrow> st)
           in st'\<lparr>is_idle := True, state_start_time := current_time\<rparr>
         else st)"

text \<open>Lines 113 to 189: one pass of the loop.\<close>

definition iteration :: "Config \<Rightarrow> iter_env \<Rightarrow> state \<Rightarrow> outcome" where
  "iteration config e st =
     (if select_ret e = - 1 then Exit EXIT_FAILURE (trace (perror ''select'' st))
      else
        let current_time = time_now e
        in case (if select_ret e > 0 \<and> fd_isset e
                 then process_input config e current_time st else Continue st) of
             Continue st1 \<Rightarrow> Continue (idle_check config current_time st1)
           | r \<Rightarrow> r)"

text \<open>
  Lines 112 to 192: the loop, over the results of as many passes as the environment
  gives. When they run out before end of stream the process is still at the head of the
  loop, waiting in \<^verbatim>\<open>select\<close>.
\<close>

fun main_loop :: "Config \<Rightarrow> state \<Rightarrow> iter_env list \<Rightarrow> outcome" where
  "main_loop config st [] =
     (if eof_reached st then Exit EXIT_SUCCESS (trace st) else Continue st)"
| "main_loop config st (e # es) =
     (if eof_reached st then Exit EXIT_SUCCESS (trace st)
      else case iteration config e st of
             Continue st' \<Rightarrow> main_loop config st' es
           | r \<Rightarrow> r)"

subsection \<open>\<^verbatim>\<open>main\<close>\<close>

text \<open>What the calls before the loop return: the two \<^verbatim>\<open>fcntl\<close> and the two \<^verbatim>\<open>time\<close>.\<close>

record startup_env =
  getfl_ret :: int
  setfl_ret :: int
  time_first :: int
  time_second :: int

text \<open>Lines 107 to 110.\<close>

definition initial_state :: "startup_env \<Rightarrow> state" where
  "initial_state su =
     \<lparr>last_data_time = time_first su, state_start_time = time_second su,
      is_idle = True, eof_reached = False, trace = []\<rparr>"

definition main ::
  "string \<Rightarrow> (char \<times> string) list \<Rightarrow> startup_env \<Rightarrow> iter_env list \<Rightarrow> outcome" where
  "main program_name opts su es =
     (case parse_args program_name opts of
        Parse_undefined \<Rightarrow> Undefined
      | Parse_exit status lines \<Rightarrow> Exit status (map Ev_stderr lines)
      | Parsed config \<Rightarrow>
          if getfl_ret su = - 1 then Exit EXIT_FAILURE [Ev_perror ''fcntl F_GETFL'']
          else if setfl_ret su = - 1 then Exit EXIT_FAILURE [Ev_perror ''fcntl F_SETFL'']
          else main_loop config (initial_state su) es)"

subsection \<open>Observations on traces\<close>

text \<open>The bytes an event puts on standard output, and those it takes from standard input.\<close>

fun written :: "event \<Rightarrow> string" where
  "written (Ev_write b) = b"
| "written _ = []"

fun delivered :: "event \<Rightarrow> string" where
  "delivered (Ev_read (Read_ok b)) = b"
| "delivered _ = []"

definition bytes_out :: "event list \<Rightarrow> string" where
  "bytes_out tr = concat (map written tr)"

definition bytes_in :: "event list \<Rightarrow> string" where
  "bytes_in tr = concat (map delivered tr)"

text \<open>
  What a list of \<^verbatim>\<open>write\<close> results can take in all, and whether a result lets the loop
  go on (a count, or an interruption).
\<close>

fun capacity :: "write_result list \<Rightarrow> nat" where
  "capacity [] = 0"
| "capacity (Write_ok n # rs) = n + capacity rs"
| "capacity (Write_err e # rs) = capacity rs"

fun retriable :: "write_result \<Rightarrow> bool" where
  "retriable (Write_ok n) = True"
| "retriable (Write_err e) = (e = EINTR)"

text \<open>
  Pass-through, as a property of an outcome of the loop: while the process runs or after
  it has ended normally what the program has written equals what it has read; in any case
  it is a prefix of it, and falls short only inside the write loop or after a fatal
  \<^verbatim>\<open>write\<close>.
\<close>

definition forwarded :: "outcome \<Rightarrow> bool" where
  "forwarded r =
     (case r of
        Continue st' \<Rightarrow> bytes_out (trace st') = bytes_in (trace st')
      | Exit status tr \<Rightarrow>
          prefix (bytes_out tr) (bytes_in tr)
          \<and> (status = EXIT_SUCCESS \<longrightarrow> bytes_out tr = bytes_in tr)
          \<and> (bytes_out tr = bytes_in tr \<or> (tr \<noteq> [] \<and> last tr = Ev_perror ''write''))
      | In_write st' \<Rightarrow> prefix (bytes_out (trace st')) (bytes_in (trace st'))
      | Undefined \<Rightarrow> False)"

text \<open>
  A pass as the environment gives it: whether the input is readable, the bytes its
  \<^verbatim>\<open>read\<close> delivers to the program (none when \<^verbatim>\<open>read\<close> is not called or fails), whether
  it is the pass that reads end of stream, and whether nothing in it is fatal and its
  \<^verbatim>\<open>write\<close> results can take the chunk. \<open>before_eof\<close> is the passes before the first that
  reads end of stream.
\<close>

definition input_ready :: "iter_env \<Rightarrow> bool" where
  "input_ready e = (0 < select_ret e \<and> fd_isset e)"

definition chunk_of :: "iter_env \<Rightarrow> string" where
  "chunk_of e =
     (if input_ready e then (case read_res e of Read_ok b \<Rightarrow> b | Read_err en \<Rightarrow> []) else [])"

definition is_eof_pass :: "iter_env \<Rightarrow> bool" where
  "is_eof_pass e = (input_ready e \<and> read_res e = Read_ok [])"

definition benign :: "iter_env \<Rightarrow> bool" where
  "benign e =
     (select_ret e \<noteq> - 1
      \<and> (input_ready e \<longrightarrow>
            (case read_res e of
               Read_ok b \<Rightarrow> list_all retriable (write_res e) \<and> length b \<le> capacity (write_res e)
             | Read_err en \<Rightarrow> en = EAGAIN \<or> en = EWOULDBLOCK)))"

fun before_eof :: "iter_env list \<Rightarrow> iter_env list" where
  "before_eof [] = []"
| "before_eof (e # es) = (if is_eof_pass e then [] else e # before_eof es)"

text \<open>
  The two streams of the process. Standard output carries what the program writes and,
  at each call of \<^verbatim>\<open>system\<close>, what the command wrote before it ended (\<open>cmd_out\<close>, by the
  call, the command and the loop's variables at the call); of standard input the program
  takes what it reads and the command what it read (\<open>cmd_in\<close>). A \<open>silent\<close> command
  touches neither stream; \<open>echo_done\<close> is the shell's answer to \<^verbatim>\<open>echo done\<close>.
\<close>

fun output_piece :: "(action \<Rightarrow> string \<Rightarrow> vars \<Rightarrow> string) \<Rightarrow> event \<Rightarrow> string" where
  "output_piece cmd_out (Ev_write b) = b"
| "output_piece cmd_out (Ev_system a cmd v) = cmd_out a cmd v"
| "output_piece cmd_out (Ev_read r) = []"
| "output_piece cmd_out (Ev_perror s) = []"
| "output_piece cmd_out (Ev_stderr s) = []"

definition output_stream :: "(action \<Rightarrow> string \<Rightarrow> vars \<Rightarrow> string) \<Rightarrow> event list \<Rightarrow> string" where
  "output_stream cmd_out tr = concat (map (output_piece cmd_out) tr)"

fun input_piece :: "(action \<Rightarrow> string \<Rightarrow> vars \<Rightarrow> string) \<Rightarrow> event \<Rightarrow> string" where
  "input_piece cmd_in (Ev_read (Read_ok b)) = b"
| "input_piece cmd_in (Ev_read (Read_err en)) = []"
| "input_piece cmd_in (Ev_system a cmd v) = cmd_in a cmd v"
| "input_piece cmd_in (Ev_write b) = []"
| "input_piece cmd_in (Ev_perror s) = []"
| "input_piece cmd_in (Ev_stderr s) = []"

definition input_stream :: "(action \<Rightarrow> string \<Rightarrow> vars \<Rightarrow> string) \<Rightarrow> event list \<Rightarrow> string" where
  "input_stream cmd_in tr = concat (map (input_piece cmd_in) tr)"

definition silent :: "action \<Rightarrow> string \<Rightarrow> vars \<Rightarrow> string" where
  "silent a cmd v = []"

definition echo_done :: "action \<Rightarrow> string \<Rightarrow> vars \<Rightarrow> string" where
  "echo_done a cmd v = (if cmd = ''echo done'' then ''done'' @ [CHR 0x0A] else [])"

text \<open>
  End of stream in a trace: the read that returned no byte, the call of \<^verbatim>\<open>system\<close> for the
  EOF command, and the number of such calls.
\<close>

fun is_eof_read :: "event \<Rightarrow> bool" where
  "is_eof_read (Ev_read (Read_ok b)) = (b = [])"
| "is_eof_read _ = False"

fun is_eof_action :: "event \<Rightarrow> bool" where
  "is_eof_action (Ev_system a cmd v) = (a = On_eof)"
| "is_eof_action _ = False"

fun is_read_or_write :: "event \<Rightarrow> bool" where
  "is_read_or_write (Ev_read r) = True"
| "is_read_or_write (Ev_write b) = True"
| "is_read_or_write _ = False"

fun eof_actions :: "event list \<Rightarrow> nat" where
  "eof_actions [] = 0"
| "eof_actions (ev # tr) = (if is_eof_action ev then 1 else 0) + eof_actions tr"

text \<open>
  What the pass that reads end of stream does after the read, the loop's variables being
  those of \<open>st\<close> and the clock showing \<open>t\<close>: the EOF command if there is one, then what the
  check for idleness of that same pass runs.
\<close>

definition eof_tail :: "Config \<Rightarrow> int \<Rightarrow> state \<Rightarrow> event list" where
  "eof_tail config t st =
     (case eof_command config of
        Some cmd \<Rightarrow> [Ev_system On_eof cmd (snapshot (st\<lparr>eof_reached := True\<rparr>))]
      | None \<Rightarrow> [])
     @ (if \<not> is_idle st \<and> idle_timeout config \<le> t - last_data_time st then
          (case active_to_idle_command config of
             Some cmd \<Rightarrow>
               if active_to_idle_threshold config \<le> t - state_start_time st
               then [Ev_system Active_to_idle cmd (snapshot (st\<lparr>eof_reached := True\<rparr>))]
               else []
           | None \<Rightarrow> [])
        else [])"

text \<open>The two activity states, read off the flag \<^verbatim>\<open>is_idle\<close>.\<close>

datatype activity = Idle | Active

definition activity_state :: "state \<Rightarrow> activity" where
  "activity_state st = (if is_idle st then Idle else Active)"

text \<open>
  Command lines: the three numeric options; when \<^verbatim>\<open>parse_args\<close> lets an option pass; the
  options whose number, if they take one, fits an \<^verbatim>\<open>int\<close>; and a configuration whose three
  durations are positive.
\<close>

definition numeric_option :: "char \<Rightarrow> bool" where
  "numeric_option opt = (opt = CHR ''t'' \<or> opt = CHR ''i'' \<or> opt = CHR ''a'')"

fun accepted :: "char \<times> string \<Rightarrow> bool" where
  "accepted (opt, optarg) =
     (if numeric_option opt then (case atoi optarg of Some v \<Rightarrow> 0 < v | None \<Rightarrow> False)
      else opt = CHR ''I'' \<or> opt = CHR ''A'' \<or> opt = CHR ''E'')"

fun in_int_range :: "char \<times> string \<Rightarrow> bool" where
  "in_int_range (opt, optarg) = (numeric_option opt \<longrightarrow> atoi optarg \<noteq> None)"

definition positive_thresholds :: "Config \<Rightarrow> bool" where
  "positive_thresholds config =
     (0 < idle_timeout config \<and> 0 < idle_to_active_threshold config
      \<and> 0 < active_to_idle_threshold config)"

text \<open>
  Inputs for concrete runs: a pass where the input is readable, one where \<^verbatim>\<open>select\<close>
  times out, and a start where both \<^verbatim>\<open>fcntl\<close> succeed.
\<close>

definition readable :: "int \<Rightarrow> read_result \<Rightarrow> write_result list \<Rightarrow> iter_env" where
  "readable t r ws =
     \<lparr>select_ret = 1, fd_isset = True, time_now = t, read_res = r, write_res = ws\<rparr>"

definition timed_out :: "int \<Rightarrow> iter_env" where
  "timed_out t =
     \<lparr>select_ret = 0, fd_isset = False, time_now = t, read_res = Read_err EAGAIN,
      write_res = []\<rparr>"

definition started_at :: "int \<Rightarrow> int \<Rightarrow> startup_env" where
  "started_at t1 t2 = \<lparr>getfl_ret = 2, setfl_ret = 0, time_first = t1, time_second = t2\<rparr>"

text \<open>
  The configuration of the scenarios of the specification, with a command for each event;
  and the state after one byte was read and written at time \<open>t\<close>.
\<close>

definition scenario_config :: Config where
  "scenario_config =
     \<lparr>idle_timeout = 1, idle_to_active_threshold = 2, active_to_idle_threshold = 2,
      idle_to_active_command = Some ''touch /tmp/marker'',
      active_to_idle_command = Some ''rm /tmp/marker'',
      eof_command = Some ''echo done''\<rparr>"

definition active_since :: "int \<Rightarrow> state" where
  "active_since t =
     \<lparr>last_data_time = t, state_start_time = t, is_idle = False, eof_reached = False,
      trace = [Ev_read (Read_ok ''x''), Ev_write ''x'']\<rparr>"

section \<open>Properties\<close>

subsection \<open>Auxiliary facts\<close>

lemma snapshot_emit [simp]: "snapshot (emit ev st) = snapshot st"
  by (simp add: snapshot_def emit_def)

lemma trace_emit [simp]: "trace (emit ev st) = trace st @ [ev]"
  by (simp add: emit_def)

lemma bytes_out_append [simp]: "bytes_out (xs @ ys) = bytes_out xs @ bytes_out ys"
  by (simp add: bytes_out_def)

lemma bytes_in_append [simp]: "bytes_in (xs @ ys) = bytes_in xs @ bytes_in ys"
  by (simp add: bytes_in_def)

lemma bytes_out_Nil [simp]: "bytes_out [] = []"
  by (simp add: bytes_out_def)

lemma bytes_in_Nil [simp]: "bytes_in [] = []"
  by (simp add: bytes_in_def)

lemma bytes_out_Cons [simp]: "bytes_out (ev # tr) = written ev @ bytes_out tr"
  by (simp add: bytes_out_def)

lemma bytes_in_Cons [simp]: "bytes_in (ev # tr) = delivered ev @ bytes_in tr"
  by (simp add: bytes_in_def)

lemma take_drop_step:
  "take m (drop k xs) @ take (n - m) (drop (k + m) xs) = take n (drop k xs)" if "m \<le> n"
proof -
  have "take n (drop k xs) = take (m + (n - m)) (drop k xs)" using that by simp
  also have "\<dots> = take m (drop k xs) @ take (n - m) (drop m (drop k xs))"
    by (rule take_add)
  finally show ?thesis by (simp add: add.commute)
qed

text \<open>The write loop, whatever its results: what it has written is a piece of the chunk.\<close>

lemma write_loop_cases:
  "bw \<le> length buffer \<Longrightarrow>
   (case write_loop buffer bw rs st of
      Continue st' \<Rightarrow> snapshot st' = snapshot st \<and>
         (\<exists>tr. trace st' = trace st @ tr \<and> bytes_out tr = drop bw buffer \<and> bytes_in tr = [])
    | Exit status tr' \<Rightarrow> status = EXIT_FAILURE \<and>
         (\<exists>tr k. tr' = trace st @ tr @ [Ev_perror ''write''] \<and> k < length buffer - bw
            \<and> bytes_out tr = take k (drop bw buffer) \<and> bytes_in tr = [])
    | In_write st' \<Rightarrow> snapshot st' = snapshot st \<and>
         (\<exists>tr k. trace st' = trace st @ tr \<and> k < length buffer - bw
            \<and> bytes_out tr = take k (drop bw buffer) \<and> bytes_in tr = [])
    | Undefined \<Rightarrow> False)"
proof (induction rs arbitrary: bw st)
  case Nil
  then show ?case by (auto intro: exI [of _ "[]"] exI [of _ 0])
next
  case (Cons r rs)
  show ?case
  proof (cases "bw < length buffer")
    case False
    with Cons.prems show ?thesis by (auto intro: exI [of _ "[]"])
  next
    case True
    show ?thesis
    proof (cases r)
      case (Write_err e)
      show ?thesis
      proof (cases "e = EINTR")
        case True
        with Write_err \<open>bw < length buffer\<close> Cons.IH [OF Cons.prems, of st] show ?thesis by simp
      next
        case False
        with Write_err \<open>bw < length buffer\<close> show ?thesis
          by (auto simp: perror_def intro!: exI [of _ "[]"] exI [of _ 0])
      qed
    next
      case (Write_ok n)
      define ret where "ret = min n (length buffer - bw)"
      define st1 where "st1 = emit (Ev_write (take ret (drop bw buffer))) st"
      have le: "bw + ret \<le> length buffer" using True by (simp add: ret_def)
      have eq: "write_loop buffer bw (r # rs) st = write_loop buffer (bw + ret) rs st1"
        using Write_ok True by (simp add: ret_def st1_def Let_def)
      have glue: "take ret (drop bw buffer) @ drop (bw + ret) buffer = drop bw buffer"
        by (metis append_take_drop_id drop_drop add.commute)
      have glue2: "take ret (drop bw buffer) @ take k (drop (bw + ret) buffer) = take (ret + k) (drop bw buffer)" for k
        using take_drop_step [of ret "ret + k" bw buffer] by simp
      from Cons.IH [OF le, of st1] show ?thesis
        unfolding eq
        apply (cases "write_loop buffer (bw + ret) rs st1")
        subgoal for st'
          by (auto simp: st1_def glue)
        subgoal for status tr'
          apply (clarsimp simp: st1_def)
          subgoal for tr k
            apply (rule exI [of _ "ret + k"])
            using le by (auto simp: glue2)
          done
        subgoal for st'
          apply (clarsimp simp: st1_def)
          subgoal for tr k
            apply (rule exI [of _ "ret + k"])
            using le by (auto simp: glue2)
          done
        subgoal by simp
        done
    qed
  qed
qed


lemma write_loop_completes:
  "list_all retriable rs \<Longrightarrow> length buffer - bw \<le> capacity rs \<Longrightarrow>
   \<exists>st'. write_loop buffer bw rs st = Continue st'"
proof (induction rs arbitrary: bw st)
  case Nil
  then show ?case by simp
next
  case (Cons r rs)
  show ?case
  proof (cases r)
    case (Write_ok n)
    have "length buffer - (bw + min n (length buffer - bw)) \<le> capacity rs"
      using Cons.prems(2) Write_ok by auto
    with Cons.IH Cons.prems(1) Write_ok show ?thesis by (simp add: Let_def)
  next
    case (Write_err e)
    with Cons show ?thesis by simp
  qed
qed

lemma write_loop_fatal:
  "list_all retriable pre \<Longrightarrow> capacity pre < length buffer - bw \<Longrightarrow> en \<noteq> EINTR \<Longrightarrow>
   \<exists>tr. write_loop buffer bw (pre @ Write_err en # post) st
          = Exit EXIT_FAILURE (trace st @ tr @ [Ev_perror ''write''])
      \<and> bytes_out tr = take (capacity pre) (drop bw buffer)"
proof (induction pre arbitrary: bw st)
  case Nil
  then show ?case by (simp add: perror_def)
next
  case (Cons r pre)
  show ?case
  proof (cases r)
    case (Write_ok n)
    have n: "n < length buffer - bw" and c: "capacity pre < length buffer - (bw + n)"
      using Cons.prems(2) Write_ok by auto
    from Cons.IH [OF _ c Cons.prems(3), of "emit (Ev_write (take n (drop bw buffer))) st"]
      Cons.prems(1)
    obtain tr where tr:
      "write_loop buffer (bw + n) (pre @ Write_err en # post)
         (emit (Ev_write (take n (drop bw buffer))) st)
       = Exit EXIT_FAILURE
           (trace (emit (Ev_write (take n (drop bw buffer))) st) @ tr @ [Ev_perror ''write''])"
      "bytes_out tr = take (capacity pre) (drop (bw + n) buffer)"
      by auto
    have "take n (drop bw buffer) @ take (capacity pre) (drop (bw + n) buffer)
          = take (n + capacity pre) (drop bw buffer)"
      using take_drop_step [of n "n + capacity pre" bw buffer] by simp
    with tr n Write_ok show ?thesis
      by (intro exI [of _ "Ev_write (take n (drop bw buffer)) # tr"]) (simp add: Let_def min_def)
  next
    case (Write_err e)
    with Cons show ?thesis by simp
  qed
qed

lemma data_observed_trace:
  "\<exists>tr. trace (data_observed config t st) = trace st @ tr \<and> bytes_out tr = [] \<and> bytes_in tr = []"
  by (auto simp: data_observed_def system_def Let_def emit_def split: option.splits)

lemma idle_check_trace:
  "\<exists>tr. trace (idle_check config t st) = trace st @ tr \<and> bytes_out tr = [] \<and> bytes_in tr = []"
  by (auto simp: idle_check_def system_def Let_def emit_def split: option.splits)

lemma eof_observed_trace:
  "\<exists>tr. trace (eof_observed config st) = trace st @ tr \<and> bytes_out tr = [] \<and> bytes_in tr = []"
  by (auto simp: eof_observed_def system_def Let_def emit_def split: option.splits)

lemma bytes_out_data_observed [simp]:
  "bytes_out (trace (data_observed config t st)) = bytes_out (trace st)"
  using data_observed_trace [of config t st] by auto

lemma bytes_in_data_observed [simp]:
  "bytes_in (trace (data_observed config t st)) = bytes_in (trace st)"
  using data_observed_trace [of config t st] by auto

lemma bytes_out_idle_check [simp]:
  "bytes_out (trace (idle_check config t st)) = bytes_out (trace st)"
  using idle_check_trace [of config t st] by auto

lemma bytes_in_idle_check [simp]:
  "bytes_in (trace (idle_check config t st)) = bytes_in (trace st)"
  using idle_check_trace [of config t st] by auto

lemma bytes_out_eof_observed [simp]:
  "bytes_out (trace (eof_observed config st)) = bytes_out (trace st)"
  using eof_observed_trace [of config st] by auto

lemma bytes_in_eof_observed [simp]:
  "bytes_in (trace (eof_observed config st)) = bytes_in (trace st)"
  using eof_observed_trace [of config st] by auto

text \<open>A write loop that comes to its end has only written, and written the rest of the chunk.\<close>

lemma write_loop_Continue:
  "write_loop buffer bw rs st = Continue st1 \<Longrightarrow>
   snapshot st1 = snapshot st
   \<and> (\<exists>ws. trace st1 = trace st @ map Ev_write ws \<and> concat ws = drop bw buffer)"
proof (induction rs arbitrary: bw st)
  case Nil
  then show ?case by (auto split: if_splits)
next
  case (Cons r rs)
  show ?case
  proof (cases "bw < length buffer")
    case False
    with Cons.prems show ?thesis by auto
  next
    case True
    show ?thesis
    proof (cases r)
      case (Write_err en)
      with Cons True show ?thesis by (auto split: if_splits)
    next
      case (Write_ok n)
      define ret where "ret = min n (length buffer - bw)"
      define piece where "piece = take ret (drop bw buffer)"
      from Cons.prems Write_ok True
      have "write_loop buffer (bw + ret) rs (emit (Ev_write piece) st) = Continue st1"
        by (simp add: ret_def piece_def Let_def)
      from Cons.IH [OF this] obtain ws where ws:
        "snapshot st1 = snapshot st" "trace st1 = trace st @ Ev_write piece # map Ev_write ws"
        "concat ws = drop (bw + ret) buffer"
        by auto
      have "piece @ drop (bw + ret) buffer = drop bw buffer"
        unfolding piece_def by (metis append_take_drop_id drop_drop add.commute)
      with ws show ?thesis
        by (intro conjI exI [of _ "piece # ws"]) simp_all
    qed
  qed
qed

text \<open>The blocks of the loop body, as record updates.\<close>

lemma state_eq_snapshot:
  "snapshot (a :: state) = snapshot b \<Longrightarrow> trace a = trace b \<Longrightarrow> a = b"
  by (cases a, cases b) (simp add: snapshot_def)

lemma snapshot_fields:
  "snapshot a = snapshot b \<Longrightarrow>
   last_data_time a = last_data_time b \<and> state_start_time a = state_start_time b
   \<and> is_idle a = is_idle b \<and> eof_reached a = eof_reached b"
  by (simp add: snapshot_def)

lemma data_observed_eq:
  "data_observed config t st =
     (if is_idle st
      then st\<lparr>is_idle := False, state_start_time := t, last_data_time := t,
              trace := trace st @
                (case idle_to_active_command config of
                   Some cmd \<Rightarrow>
                     if idle_to_active_threshold config \<le> t - state_start_time st
                     then [Ev_system Idle_to_active cmd (snapshot st)] else []
                 | None \<Rightarrow> [])\<rparr>
      else st\<lparr>last_data_time := t\<rparr>)"
  by (simp add: data_observed_def Let_def system_def emit_def split: option.splits)

lemma eof_observed_eq:
  "eof_observed config st =
     st\<lparr>eof_reached := True,
        trace := trace st @
          (case eof_command config of
             Some cmd \<Rightarrow> [Ev_system On_eof cmd (snapshot (st\<lparr>eof_reached := True\<rparr>))]
           | None \<Rightarrow> [])\<rparr>"
  by (simp add: eof_observed_def Let_def system_def emit_def split: option.splits)

lemma idle_check_eq:
  "idle_check config t st =
     (if \<not> is_idle st \<and> idle_timeout config \<le> t - last_data_time st
      then st\<lparr>is_idle := True, state_start_time := t,
              trace := trace st @
                (case active_to_idle_command config of
                   Some cmd \<Rightarrow>
                     if active_to_idle_threshold config \<le> t - state_start_time st
                     then [Ev_system Active_to_idle cmd (snapshot st)] else []
                 | None \<Rightarrow> [])\<rparr>
      else st)"
  by (simp add: idle_check_def Let_def system_def emit_def split: option.splits)

lemma idle_check_just_fed:
  "0 < idle_timeout config \<Longrightarrow> last_data_time st = t \<Longrightarrow> idle_check config t st = st"
  by (simp add: idle_check_def)

lemma snapshot_idle_check_emit:
  "snapshot (idle_check config t (emit ev st)) = snapshot (idle_check config t st)"
  by (simp add: idle_check_eq snapshot_def emit_def)

lemma last_data_time_idle_check [simp]:
  "last_data_time (idle_check config t st) = last_data_time st"
  by (simp add: idle_check_eq)

lemma eof_reached_idle_check [simp]:
  "eof_reached (idle_check config t st) = eof_reached st"
  by (simp add: idle_check_eq)

lemma process_input_vars:
  assumes "process_input config e t st = Continue st1"
  shows "(is_idle st1 = is_idle st \<and> state_start_time st1 = state_start_time st)
       \<or> (is_idle st \<and> \<not> is_idle st1 \<and> state_start_time st1 = t \<and> last_data_time st1 = t)"
proof (cases "read_res e")
  case (Read_err en)
  with assms show ?thesis
    by (auto simp: process_input_def Let_def emit_def split: if_splits)
next
  case (Read_ok buffer)
  show ?thesis
  proof (cases "buffer = []")
    case True
    with Read_ok assms show ?thesis
      by (auto simp: process_input_def Let_def emit_def eof_observed_eq)
  next
    case False
    with Read_ok assms obtain st0 where
      w: "write_loop buffer 0 (write_res e) (emit (Ev_read (read_res e)) st) = Continue st0"
      and st1: "st1 = data_observed config t st0"
      by (auto simp: process_input_def Let_def split: outcome.splits)
    from write_loop_Continue [OF w] have "snapshot st0 = snapshot st" by simp
    from snapshot_fields [OF this] show ?thesis
      by (simp add: st1 data_observed_eq)
  qed
qed

lemmas run_defs =
  scenario_config_def active_since_def readable_def timed_out_def started_at_def
  initial_state_def emit_def snapshot_def

subsection \<open>The numeric options (claim C5)\<close>

lemma parse_loop_result:
  "list_all in_int_range opts \<Longrightarrow> positive_thresholds c \<Longrightarrow>
   (if list_all accepted opts
    then \<exists>config. parse_loop pn c opts = Parsed config \<and> positive_thresholds config
    else \<exists>lines. lines \<noteq> [] \<and> parse_loop pn c opts = Parse_exit EXIT_FAILURE lines)"
proof (induction opts arbitrary: c)
  case Nil
  then show ?case by simp
next
  case (Cons p opts)
  obtain opt optarg where p: "p = (opt, optarg)" by (cases p)
  have rest: "list_all in_int_range opts" using Cons.prems(1) by simp
  note IH = Cons.IH [OF rest]
  consider (t) "opt = CHR ''t''" | (i) "opt = CHR ''i''" | (a) "opt = CHR ''a''"
    | (I) "opt = CHR ''I''" | (A) "opt = CHR ''A''" | (E) "opt = CHR ''E''"
    | (other) "\<not> numeric_option opt" "opt \<noteq> CHR ''I''" "opt \<noteq> CHR ''A''" "opt \<noteq> CHR ''E''"
    by (auto simp: numeric_option_def)
  then show ?case
  proof cases
    case t
    with Cons.prems(1) p obtain v where v: "atoi optarg = Some v"
      by (auto simp: numeric_option_def)
    show ?thesis
    proof (cases "0 < v")
      case True
      with Cons.prems(2) have "positive_thresholds (c\<lparr>idle_timeout := v\<rparr>)"
        by (simp add: positive_thresholds_def)
      from IH [OF this] True show ?thesis
        by (simp add: p t v numeric_option_def Let_def)
    next
      case False
      then show ?thesis by (simp add: p t v numeric_option_def Let_def)
    qed
  next
    case i
    with Cons.prems(1) p obtain v where v: "atoi optarg = Some v"
      by (auto simp: numeric_option_def)
    show ?thesis
    proof (cases "0 < v")
      case True
      with Cons.prems(2) have "positive_thresholds (c\<lparr>idle_to_active_threshold := v\<rparr>)"
        by (simp add: positive_thresholds_def)
      from IH [OF this] True show ?thesis
        by (simp add: p i v numeric_option_def Let_def)
    next
      case False
      then show ?thesis by (simp add: p i v numeric_option_def Let_def)
    qed
  next
    case a
    with Cons.prems(1) p obtain v where v: "atoi optarg = Some v"
      by (auto simp: numeric_option_def)
    show ?thesis
    proof (cases "0 < v")
      case True
      with Cons.prems(2) have "positive_thresholds (c\<lparr>active_to_idle_threshold := v\<rparr>)"
        by (simp add: positive_thresholds_def)
      from IH [OF this] True show ?thesis
        by (simp add: p a v numeric_option_def Let_def)
    next
      case False
      then show ?thesis by (simp add: p a v numeric_option_def Let_def)
    qed
  next
    case I
    from Cons.prems(2) have "positive_thresholds (c\<lparr>idle_to_active_command := Some optarg\<rparr>)"
      by (simp add: positive_thresholds_def)
    from IH [OF this] show ?thesis by (simp add: p I numeric_option_def)
  next
    case A
    from Cons.prems(2) have "positive_thresholds (c\<lparr>active_to_idle_command := Some optarg\<rparr>)"
      by (simp add: positive_thresholds_def)
    from IH [OF this] show ?thesis by (simp add: p A numeric_option_def)
  next
    case E
    from Cons.prems(2) have "positive_thresholds (c\<lparr>eof_command := Some optarg\<rparr>)"
      by (simp add: positive_thresholds_def)
    from IH [OF this] show ?thesis by (simp add: p E numeric_option_def)
  next
    case other
    then show ?thesis
      by (simp add: p numeric_option_def print_usage_def)
  qed
qed

lemma parse_loop_positive:
  "parse_loop pn c opts = Parsed config \<Longrightarrow> positive_thresholds c \<Longrightarrow>
   positive_thresholds config"
proof (induction opts arbitrary: c)
  case Nil
  then show ?case by simp
next
  case (Cons p opts)
  obtain opt optarg where p: "p = (opt, optarg)" by (cases p)
  from Cons.prems(1) obtain c' where c': "parse_loop pn c' opts = Parsed config"
      and pos: "positive_thresholds c'"
    using Cons.prems(2)
    by (auto simp: p Let_def positive_thresholds_def print_usage_def
        split: if_splits option.splits)
  from Cons.IH [OF c' pos] show ?case .
qed

lemma isdigit_plain: "isdigit c \<Longrightarrow> \<not> isspace c \<and> c \<noteq> CHR ''-'' \<and> c \<noteq> CHR ''+''"
  by (auto simp: isdigit_def isspace_def)

lemma digits_value_junk:
  "list_all isdigit ds \<Longrightarrow> (case junk of [] \<Rightarrow> True | c # cs \<Rightarrow> \<not> isdigit c) \<Longrightarrow>
   digits_value acc (ds @ junk) = digits_value acc ds"
  by (induction ds arbitrary: acc) (auto split: list.splits)

lemma atoi_junk:
  assumes "list_all isdigit ds" and "ds \<noteq> []"
    and "case junk of [] \<Rightarrow> True | c # cs \<Rightarrow> \<not> isdigit c"
  shows "atoi (ds @ junk) = atoi ds"
proof -
  from assms(2) obtain d ds' where ds: "ds = d # ds'" by (cases ds) auto
  with assms(1) have d: "isdigit d" by simp
  note pl = isdigit_plain [OF d]
  have "atoi_value (ds @ junk) = int (digits_value 0 (ds @ junk))"
    using pl by (simp add: atoi_value_def ds)
  moreover have "atoi_value ds = int (digits_value 0 ds)"
    using pl by (simp add: atoi_value_def ds)
  ultimately show ?thesis
    using digits_value_junk [OF assms(1,3), of 0] by (simp add: atoi_def)
qed

text \<open>
  Claim C5, as the code has it. Take a command line whose numeric arguments fit an
  \<^verbatim>\<open>int\<close>. If every option is known and every argument of \<^verbatim>\<open>-t\<close>, \<^verbatim>\<open>-i\<close>, \<^verbatim>\<open>-a\<close> has a
  positive \<^verbatim>\<open>atoi\<close> value, \<^verbatim>\<open>parse_args\<close> returns a configuration with three positive
  durations. Otherwise the process exits with \<^verbatim>\<open>EXIT_FAILURE\<close>, having written at least one
  line to the error stream and nothing else: no pass of the loop is made. A numeric
  argument passes exactly when its \<^verbatim>\<open>atoi\<close> value is positive, and \<^verbatim>\<open>atoi\<close> reads a run of
  digits and ignores what follows it: digits followed by other characters pass like the
  digits alone. Whatever the command line, a configuration that \<^verbatim>\<open>parse_args\<close> returns has
  three positive durations.
\<close>

theorem numeric_options_checked:
  assumes "list_all in_int_range opts"
  shows "(list_all accepted opts \<longrightarrow>
            (\<exists>config. parse_args program_name opts = Parsed config
               \<and> 0 < idle_timeout config \<and> 0 < idle_to_active_threshold config
               \<and> 0 < active_to_idle_threshold config))
       \<and> (\<not> list_all accepted opts \<longrightarrow>
            (\<exists>lines. lines \<noteq> [] \<and> parse_args program_name opts = Parse_exit EXIT_FAILURE lines
               \<and> main program_name opts su es = Exit EXIT_FAILURE (map Ev_stderr lines)))
       \<and> (numeric_option opt \<and> atoi optarg = Some v \<longrightarrow>
            accepted (opt, optarg) = (0 < v))
       \<and> (list_all isdigit ds \<and> ds \<noteq> [] \<and> (case junk of [] \<Rightarrow> True | c # cs \<Rightarrow> \<not> isdigit c)
            \<longrightarrow> atoi (ds @ junk) = atoi ds)
       \<and> (parse_args program_name any_opts = Parsed any_config \<longrightarrow>
            0 < idle_timeout any_config \<and> 0 < idle_to_active_threshold any_config
            \<and> 0 < active_to_idle_threshold any_config)"
proof -
  have pos: "positive_thresholds default_config"
    by (simp add: positive_thresholds_def default_config_def DEFAULT_IDLE_TIMEOUT_def
        DEFAULT_IDLE_TO_ACTIVE_THRESHOLD_def DEFAULT_ACTIVE_TO_IDLE_THRESHOLD_def)
  have 5: "parse_args program_name any_opts = Parsed any_config \<longrightarrow>
            0 < idle_timeout any_config \<and> 0 < idle_to_active_threshold any_config
            \<and> 0 < active_to_idle_threshold any_config"
    using parse_loop_positive [of program_name default_config any_opts any_config] pos
    by (simp add: parse_args_def positive_thresholds_def)
  note r = parse_loop_result [OF assms pos, of program_name]
  have 1: "list_all accepted opts \<longrightarrow>
            (\<exists>config. parse_args program_name opts = Parsed config
               \<and> 0 < idle_timeout config \<and> 0 < idle_to_active_threshold config
               \<and> 0 < active_to_idle_threshold config)"
    using r by (auto simp: parse_args_def positive_thresholds_def)
  have 2: "\<not> list_all accepted opts \<longrightarrow>
            (\<exists>lines. lines \<noteq> [] \<and> parse_args program_name opts = Parse_exit EXIT_FAILURE lines
               \<and> main program_name opts su es = Exit EXIT_FAILURE (map Ev_stderr lines))"
    using r by (auto simp: parse_args_def main_def)
  have 3: "numeric_option opt \<and> atoi optarg = Some v \<longrightarrow> accepted (opt, optarg) = (0 < v)"
    by simp
  have 4: "list_all isdigit ds \<and> ds \<noteq> [] \<and> (case junk of [] \<Rightarrow> True | c # cs \<Rightarrow> \<not> isdigit c)
            \<longrightarrow> atoi (ds @ junk) = atoi ds"
    using atoi_junk [of ds junk] by blast
  from 1 2 3 4 5 show ?thesis by blast
qed

text \<open>
  The claim as first stated fails: \<^verbatim>\<open>-t 5abc\<close> is not rejected, it sets the timeout
  to 5.
\<close>

theorem numeric_options_checked_counterexample:
  "parse_args ''idlecat'' [(CHR ''t'', ''5abc'')] = Parsed (default_config\<lparr>idle_timeout := 5\<rparr>)"
  by (simp add: parse_args_def atoi_def atoi_value_def isspace_def isdigit_def
      INT_MIN_def INT_MAX_def)

text \<open>
  An accepted command line; \<^verbatim>\<open>-i 0\<close> and \<^verbatim>\<open>-a soon\<close>, both rejected before the input is
  touched; and the arguments \<open>5abc\<close> and \<open>-5\<close>.
\<close>

theorem numeric_options_checked_witness:
  "parse_args ''idlecat'' [(CHR ''t'', ''30''), (CHR ''I'', ''date'')]
     = Parsed (default_config\<lparr>idle_timeout := 30, idle_to_active_command := Some ''date''\<rparr>)
   \<and> main ''idlecat'' [(CHR ''i'', ''0'')] (started_at 10 10) [readable 10 (Read_ok ''x'') []]
     = Exit EXIT_FAILURE [Ev_stderr ''Idle to active threshold must be positive'']
   \<and> main ''idlecat'' [(CHR ''a'', ''soon'')] (started_at 10 10) [readable 10 (Read_ok ''x'') []]
     = Exit EXIT_FAILURE [Ev_stderr ''Active to idle threshold must be positive'']
   \<and> accepted (CHR ''t'', ''5abc'') \<and> \<not> accepted (CHR ''t'', ''-5'')
   \<and> atoi ''5abc'' = atoi ''5''"
  using
    numeric_options_checked
      [where opts = "[(CHR ''t'', ''30''), (CHR ''I'', ''date'')]"
         and program_name = "''idlecat''" and opt = "CHR ''t''" and optarg = "''5abc''"
         and v = 5 and ds = "''5''" and junk = "''abc''"
         and any_opts = "[(CHR ''t'', ''30''), (CHR ''I'', ''date'')]"
         and any_config =
           "default_config\<lparr>idle_timeout := 30, idle_to_active_command := Some ''date''\<rparr>"]
    numeric_options_checked
      [where opts = "[(CHR ''i'', ''0'')]"
         and program_name = "''idlecat''" and su = "started_at 10 10"
         and es = "[readable 10 (Read_ok ''x'') []]" and opt = "CHR ''t''" and optarg = "''-5''"
         and v = "- 5" and ds = "''5''" and junk = "''abc''"]
    numeric_options_checked
      [where opts = "[(CHR ''a'', ''soon'')]"
         and program_name = "''idlecat''" and su = "started_at 10 10"
         and es = "[readable 10 (Read_ok ''x'') []]" and opt = "CHR ''t''" and optarg = "''-5''"
         and v = "- 5" and ds = "''5''" and junk = "''abc''"]
  by (simp add: parse_args_def main_def numeric_option_def atoi_def atoi_value_def isspace_def
      isdigit_def INT_MIN_def INT_MAX_def Let_def)

subsection \<open>The initial state (claim C6)\<close>

lemma iteration_idle_until_data:
  assumes "iteration config e st = Continue st'"
    and "is_idle st \<or> bytes_in (trace st) \<noteq> []"
  shows "is_idle st' \<or> bytes_in (trace st') \<noteq> []"
proof -
  let ?r = "if 0 < select_ret e \<and> fd_isset e
            then process_input config e (time_now e) st else Continue st"
  from assms obtain st1 where st1: "?r = Continue st1"
      and st': "st' = idle_check config (time_now e) st1"
    by (cases ?r) (auto simp: iteration_def Let_def split: if_splits)
  have "is_idle st1 \<or> bytes_in (trace st1) \<noteq> []"
  proof (cases "0 < select_ret e \<and> fd_isset e")
    case False
    with st1 assms(2) show ?thesis by simp
  next
    case True
    with st1 have p: "process_input config e (time_now e) st = Continue st1" by simp
    show ?thesis
    proof (cases "read_res e")
      case (Read_err en)
      with p assms(2) show ?thesis
        by (auto simp: process_input_def Let_def emit_def split: if_splits)
    next
      case (Read_ok buffer)
      show ?thesis
      proof (cases "buffer = []")
        case True
        with Read_ok p assms(2) show ?thesis
          by (auto simp: process_input_def Let_def eof_observed_eq emit_def)
      next
        case False
        with Read_ok p obtain st0 where
          w: "write_loop buffer 0 (write_res e) (emit (Ev_read (read_res e)) st) = Continue st0"
          and e1: "st1 = data_observed config (time_now e) st0"
          by (auto simp: process_input_def Let_def split: outcome.splits)
        from write_loop_Continue [OF w] obtain ws where
          "trace st0 = trace st @ Ev_read (Read_ok buffer) # map Ev_write ws"
          using Read_ok by auto
        with False have "bytes_in (trace st0) \<noteq> []" by simp
        then show ?thesis by (simp add: e1)
      qed
    qed
  qed
  then show ?thesis
    by (auto simp: st' idle_check_eq)
qed

lemma main_loop_idle_until_data:
  "main_loop config st es = Continue st' \<Longrightarrow> is_idle st \<or> bytes_in (trace st) \<noteq> [] \<Longrightarrow>
   is_idle st' \<or> bytes_in (trace st') \<noteq> []"
proof (induction es arbitrary: st)
  case Nil
  then show ?case by (auto split: if_splits)
next
  case (Cons e es)
  from Cons.prems(1) obtain st1 where it: "iteration config e st = Continue st1"
      and rest: "main_loop config st1 es = Continue st'"
    by (auto split: if_splits outcome.splits)
  from Cons.IH [OF rest iteration_idle_until_data [OF it Cons.prems(2)]] show ?case .
qed

text \<open>
  Claim C6, as the code has it. The loop starts idle and not at end of stream;
  \<^verbatim>\<open>last_data_time\<close> is the first reading of the clock and \<^verbatim>\<open>state_start_time\<close> a second
  reading, taken by a second call of \<^verbatim>\<open>time\<close> right after it. When the command line is
  accepted and both \<^verbatim>\<open>fcntl\<close> succeed, \<^verbatim>\<open>main\<close> is the loop run from this state. As long as
  no byte has been read the state at the head of the loop is Idle, and a state is always
  exactly one of Idle and Active.
\<close>

theorem initial_state_idle:
  "is_idle (initial_state su) \<and> \<not> eof_reached (initial_state su)
   \<and> last_data_time (initial_state su) = time_first su
   \<and> state_start_time (initial_state su) = time_second su
   \<and> (parse_args program_name opts = Parsed config \<and> getfl_ret su \<noteq> - 1
        \<and> setfl_ret su \<noteq> - 1
      \<longrightarrow> main program_name opts su es = main_loop config (initial_state su) es)
   \<and> (main_loop config (initial_state su) es = Continue st \<and> bytes_in (trace st) = []
      \<longrightarrow> activity_state st = Idle)
   \<and> ((activity_state st' = Idle) \<noteq> (activity_state st' = Active))"
proof -
  have "is_idle st" if "main_loop config (initial_state su) es = Continue st"
      and "bytes_in (trace st) = []"
    using main_loop_idle_until_data [OF that(1)] that(2) by (simp add: initial_state_def)
  then show ?thesis
    by (simp add: initial_state_def main_def activity_state_def)
qed

text \<open>
  The claim as first stated has both times equal to one start time. The clock may tick
  between the two calls: with readings 99 and 100 the loop starts with two different
  times.
\<close>

theorem initial_state_idle_counterexample:
  "main ''idlecat'' [] (started_at 99 100) []
   = Continue \<lparr>last_data_time = 99, state_start_time = 100, is_idle = True,
               eof_reached = False, trace = []\<rparr>"
  by (simp add: main_def parse_args_def run_defs)

text \<open>A start at time 10, and two passes without input.\<close>

theorem initial_state_idle_witness:
  "parse_args ''idlecat'' [] = Parsed default_config
   \<and> main ''idlecat'' [] (started_at 10 10) [timed_out 11, timed_out 12]
     = main_loop default_config (initial_state (started_at 10 10)) [timed_out 11, timed_out 12]
   \<and> main_loop default_config (initial_state (started_at 10 10)) [timed_out 11, timed_out 12]
     = Continue \<lparr>last_data_time = 10, state_start_time = 10, is_idle = True,
                 eof_reached = False, trace = []\<rparr>
   \<and> activity_state
       \<lparr>last_data_time = 10, state_start_time = 10, is_idle = True, eof_reached = False,
        trace = []\<rparr> = Idle"
  using initial_state_idle
    [where su = "started_at 10 10" and program_name = "''idlecat''" and opts = "[]"
       and config = default_config and es = "[timed_out 11, timed_out 12]"
       and st = "\<lparr>last_data_time = 10, state_start_time = 10, is_idle = True,
                  eof_reached = False, trace = []\<rparr>"
       and st' = "initial_state (started_at 10 10)"]
  by (simp add: parse_args_def run_defs iteration_def idle_check_def Let_def)

subsection \<open>The write loop (claim C7)\<close>

text \<open>
  Claim C7. A chunk was read (\<open>buffer\<close>, not empty). When every result of \<^verbatim>\<open>write\<close> is
  a count (also a partial one, also zero) or an interruption (\<^verbatim>\<open>EINTR\<close>) and together
  they take at least the chunk, the pass goes on to its end and the output has grown by
  exactly the chunk. When, before the chunk is written, a \<^verbatim>\<open>write\<close> fails with anything
  but \<^verbatim>\<open>EINTR\<close>, the process exits at once with \<^verbatim>\<open>EXIT_FAILURE\<close> after \<^verbatim>\<open>perror("write")\<close>,
  the output holding the part of the chunk written until then.
\<close>

theorem write_loop_retries_until_written:
  assumes "0 < select_ret e" and "fd_isset e" and "read_res e = Read_ok buffer" and "buffer \<noteq> []"
  shows "(list_all retriable (write_res e) \<and> length buffer \<le> capacity (write_res e) \<longrightarrow>
          (\<exists>st'. iteration config e st = Continue st'
             \<and> bytes_out (trace st') = bytes_out (trace st) @ buffer))
       \<and> (write_res e = pre @ Write_err en # post \<and> list_all retriable pre
              \<and> capacity pre < length buffer \<and> en \<noteq> EINTR \<longrightarrow>
          (\<exists>tr. iteration config e st = Exit EXIT_FAILURE (tr @ [Ev_perror ''write''])
             \<and> bytes_out tr = bytes_out (trace st) @ take (capacity pre) buffer))"
proof (intro conjI impI)
  let ?st0 = "emit (Ev_read (read_res e)) st"
  assume ok: "list_all retriable (write_res e) \<and> length buffer \<le> capacity (write_res e)"
  then obtain st1 where st1: "write_loop buffer 0 (write_res e) ?st0 = Continue st1"
    using write_loop_completes [of "write_res e" buffer 0 ?st0] by auto
  with write_loop_cases [where bw = 0 and buffer = buffer and rs = "write_res e" and st = ?st0]
  have "bytes_out (trace st1) = bytes_out (trace st) @ buffer"
    using assms(3) by auto
  with st1 assms show "\<exists>st'. iteration config e st = Continue st'
      \<and> bytes_out (trace st') = bytes_out (trace st) @ buffer"
    by (simp add: iteration_def process_input_def Let_def)
next
  let ?st0 = "emit (Ev_read (read_res e)) st"
  assume h: "write_res e = pre @ Write_err en # post \<and> list_all retriable pre
      \<and> capacity pre < length buffer \<and> en \<noteq> EINTR"
  with write_loop_fatal [of pre buffer 0 en post ?st0]
  obtain tr where tr: "write_loop buffer 0 (write_res e) ?st0
        = Exit EXIT_FAILURE (trace ?st0 @ tr @ [Ev_perror ''write''])"
      "bytes_out tr = take (capacity pre) buffer"
    by auto
  with assms show "\<exists>tr. iteration config e st = Exit EXIT_FAILURE (tr @ [Ev_perror ''write''])
      \<and> bytes_out tr = bytes_out (trace st) @ take (capacity pre) buffer"
    by (intro exI [of _ "trace ?st0 @ tr"])
       (simp add: iteration_def process_input_def Let_def EXIT_FAILURE_def)
qed

text \<open>
  The chunk \<open>hello\<close>: a partial write of two bytes, an interruption, then the rest; and
  the same with \<^verbatim>\<open>EPIPE\<close> in place of the rest.
\<close>

theorem write_loop_retries_until_written_witness:
  "(\<exists>st'. iteration default_config
            (readable 10 (Read_ok ''hello'') [Write_ok 2, Write_err EINTR, Write_ok 4096])
            (initial_state (started_at 10 10)) = Continue st'
       \<and> bytes_out (trace st') = ''hello'')
   \<and> (\<exists>tr. iteration default_config
            (readable 10 (Read_ok ''hello'') [Write_ok 2, Write_err EINTR, Write_err EPIPE])
            (initial_state (started_at 10 10)) = Exit EXIT_FAILURE (tr @ [Ev_perror ''write''])
       \<and> bytes_out tr = ''he'')"
  using
    write_loop_retries_until_written
      [where e = "readable 10 (Read_ok ''hello'') [Write_ok 2, Write_err EINTR, Write_ok 4096]"
         and buffer = "''hello''" and config = default_config
         and st = "initial_state (started_at 10 10)"
         and pre = "[]" and en = EIO and post = "[]"]
    write_loop_retries_until_written
      [where e = "readable 10 (Read_ok ''hello'') [Write_ok 2, Write_err EINTR, Write_err EPIPE]"
         and buffer = "''hello''" and config = default_config
         and st = "initial_state (started_at 10 10)"
         and pre = "[Write_ok 2, Write_err EINTR]" and en = EPIPE and post = "[]"]
  by (simp add: readable_def initial_state_def started_at_def)

subsection \<open>Pass-through (claim C2)\<close>

lemma process_input_forwarded:
  assumes "bytes_out (trace st) = bytes_in (trace st)"
  shows "forwarded (process_input config e t st)"
proof (cases "read_res e")
  case (Read_err en)
  with assms show ?thesis
    by (simp add: process_input_def Let_def forwarded_def perror_def EXIT_SUCCESS_def EXIT_FAILURE_def)
next
  case (Read_ok buffer)
  let ?st0 = "emit (Ev_read (read_res e)) st"
  show ?thesis
  proof (cases "buffer = []")
    case True
    with Read_ok assms show ?thesis
      by (simp add: process_input_def Let_def forwarded_def)
  next
    case False
    from write_loop_cases [where bw = 0 and buffer = buffer and rs = "write_res e" and st = ?st0]
    show ?thesis
      using False Read_ok assms
      by (cases "write_loop buffer 0 (write_res e) ?st0")
         (auto simp: process_input_def Let_def forwarded_def EXIT_SUCCESS_def EXIT_FAILURE_def
            intro: take_is_prefix)
  qed
qed

lemma iteration_forwarded:
  assumes "bytes_out (trace st) = bytes_in (trace st)"
  shows "forwarded (iteration config e st)"
proof -
  have a: "forwarded (Exit EXIT_FAILURE (trace (perror ''select'' st)))"
    using assms by (simp add: forwarded_def perror_def EXIT_SUCCESS_def EXIT_FAILURE_def)
  have b: "forwarded (Continue (idle_check config t st1))" if "forwarded (Continue st1)" for t st1
    using that by (simp add: forwarded_def)
  have c: "forwarded (Continue st)" using assms by (simp add: forwarded_def)
  show ?thesis
    using a b c process_input_forwarded [OF assms, of config e "time_now e"]
    by (cases "process_input config e (time_now e) st")
       (auto simp: iteration_def Let_def)
qed

lemma main_loop_forwarded:
  "bytes_out (trace st) = bytes_in (trace st) \<Longrightarrow> forwarded (main_loop config st es)"
proof (induction es arbitrary: st)
  case Nil
  then show ?case by (simp add: forwarded_def)
next
  case (Cons e es)
  show ?case
  proof (cases "eof_reached st")
    case True
    with Cons.prems show ?thesis by (simp add: forwarded_def)
  next
    case False
    from iteration_forwarded [OF Cons.prems, of config e] Cons.IH False show ?thesis
      by (cases "iteration config e st") (auto simp: forwarded_def)
  qed
qed

lemma output_stream_silent: "output_stream silent tr = bytes_out tr"
proof (induction tr)
  case Nil
  show ?case by (simp add: output_stream_def)
next
  case (Cons ev tr)
  then show ?case by (cases ev) (simp_all add: output_stream_def silent_def)
qed

lemma input_stream_silent: "input_stream silent tr = bytes_in tr"
proof (induction tr)
  case Nil
  show ?case by (simp add: input_stream_def)
next
  case (Cons ev tr)
  have "input_piece silent ev = delivered ev"
    by (cases ev rule: delivered.cases) (simp_all add: silent_def)
  with Cons show ?case by (simp add: input_stream_def)
qed

lemma benign_pass:
  assumes "benign e" and "\<not> is_eof_pass e"
  shows "\<exists>st'. iteration config e st = Continue st' \<and> eof_reached st' = eof_reached st
     \<and> bytes_out (trace st') = bytes_out (trace st) @ chunk_of e
     \<and> bytes_in (trace st') = bytes_in (trace st) @ chunk_of e"
proof (cases "input_ready e")
  case False
  from assms(1) have "select_ret e \<noteq> - 1" by (simp add: benign_def)
  with False have "iteration config e st = Continue (idle_check config (time_now e) st)"
    by (auto simp: input_ready_def iteration_def Let_def)
  moreover from False have "chunk_of e = []" by (simp add: chunk_of_def)
  ultimately show ?thesis by simp
next
  case True
  show ?thesis
  proof (cases "read_res e")
    case (Read_err en)
    with True assms(1) have "en = EAGAIN \<or> en = EWOULDBLOCK" "select_ret e \<noteq> - 1"
      by (simp_all add: benign_def)
    with True Read_err show ?thesis
      by (auto simp: input_ready_def chunk_of_def iteration_def process_input_def Let_def
          emit_def)
  next
    case (Read_ok buffer)
    with True assms(2) have ne: "buffer \<noteq> []" by (simp add: is_eof_pass_def)
    let ?st0 = "emit (Ev_read (read_res e)) st"
    from True Read_ok assms(1) have ok: "list_all retriable (write_res e)"
        "length buffer - 0 \<le> capacity (write_res e)" "select_ret e \<noteq> - 1"
      by (simp_all add: benign_def)
    from write_loop_completes [OF ok(1,2), of ?st0] obtain stw where
      w: "write_loop buffer 0 (write_res e) ?st0 = Continue stw" by blast
    from write_loop_Continue [OF w] obtain ws where ws:
      "snapshot stw = snapshot st" "concat ws = buffer"
      "trace stw = trace st @ Ev_read (Read_ok buffer) # map Ev_write ws"
      using Read_ok by auto
    have o: "bytes_out (map Ev_write xs) = concat xs" for xs
      by (induction xs) simp_all
    have i: "bytes_in (map Ev_write xs) = []" for xs
      by (induction xs) simp_all
    let ?st' = "idle_check config (time_now e) (data_observed config (time_now e) stw)"
    have 1: "iteration config e st = Continue ?st'"
      using True Read_ok ne ok(3) w
      by (simp add: input_ready_def iteration_def process_input_def Let_def)
    have 2: "eof_reached ?st' = eof_reached st"
      using snapshot_fields [OF ws(1)] by (simp add: data_observed_eq)
    have 3: "bytes_out (trace ?st') = bytes_out (trace st) @ chunk_of e"
      using True Read_ok ws(2,3) by (simp add: chunk_of_def o)
    have 4: "bytes_in (trace ?st') = bytes_in (trace st) @ chunk_of e"
      using True Read_ok ws(3) by (simp add: chunk_of_def i)
    from 1 2 3 4 show ?thesis by blast
  qed
qed

lemma eof_pass_bytes:
  assumes "is_eof_pass e" and "select_ret e \<noteq> - 1"
  shows "\<exists>st'. iteration config e st = Continue st' \<and> eof_reached st'
     \<and> bytes_out (trace st') = bytes_out (trace st)
     \<and> bytes_in (trace st') = bytes_in (trace st)"
proof -
  let ?st' = "idle_check config (time_now e)
                (eof_observed config (emit (Ev_read (Read_ok [])) st))"
  have 1: "iteration config e st = Continue ?st'"
    using assms by (simp add: is_eof_pass_def input_ready_def iteration_def process_input_def Let_def)
  have 2: "eof_reached ?st'" by (simp add: eof_observed_eq)
  have 3: "bytes_out (trace ?st') = bytes_out (trace st)" by simp
  have 4: "bytes_in (trace ?st') = bytes_in (trace st)" by simp
  from 1 2 3 4 show ?thesis by blast
qed

lemma main_loop_benign:
  "list_all benign es \<Longrightarrow> \<not> eof_reached st \<Longrightarrow>
   (if list_ex is_eof_pass es
    then \<exists>tr. main_loop config st es = Exit EXIT_SUCCESS tr
           \<and> bytes_out tr = bytes_out (trace st) @ concat (map chunk_of (before_eof es))
           \<and> bytes_in tr = bytes_in (trace st) @ concat (map chunk_of (before_eof es))
    else \<exists>st'. main_loop config st es = Continue st'
           \<and> bytes_out (trace st') = bytes_out (trace st) @ concat (map chunk_of es)
           \<and> bytes_in (trace st') = bytes_in (trace st) @ concat (map chunk_of es))"
proof (induction es arbitrary: st)
  case Nil
  then show ?case by simp
next
  case (Cons e es)
  from Cons.prems(1) have be: "benign e" and bes: "list_all benign es" by simp_all
  show ?case
  proof (cases "is_eof_pass e")
    case True
    from be have "select_ret e \<noteq> - 1" by (simp add: benign_def)
    from eof_pass_bytes [OF True this, of config st] obtain st' where
      "iteration config e st = Continue st'" "eof_reached st'"
      "bytes_out (trace st') = bytes_out (trace st)"
      "bytes_in (trace st') = bytes_in (trace st)"
      by blast
    with True Cons.prems(2) show ?thesis
      by (cases es) simp_all
  next
    case False
    from benign_pass [OF be False, of config st] obtain st' where st':
      "iteration config e st = Continue st'" "eof_reached st' = eof_reached st"
      "bytes_out (trace st') = bytes_out (trace st) @ chunk_of e"
      "bytes_in (trace st') = bytes_in (trace st) @ chunk_of e"
      by blast
    with Cons.prems(2) have ne: "\<not> eof_reached st'" by simp
    from Cons.IH [OF bes ne] st' False Cons.prems(2) show ?thesis
      by (cases "list_ex is_eof_pass es") auto
  qed
qed

text \<open>
  Claim C2, as the code has it. The command line is accepted and both \<^verbatim>\<open>fcntl\<close> succeed.
  If no pass is fatal and the \<^verbatim>\<open>write\<close> results of each pass can take its chunk, then,
  whatever the configuration and the clock: when some pass reads end of stream the run
  ends with \<^verbatim>\<open>EXIT_SUCCESS\<close>, and what the program has written is exactly the chunks the
  environment delivered before that pass, in their order; when none does, the process is
  at the head of its loop and has written exactly all the chunks delivered. In every
  environment what the program has written is a prefix of what it has read, equal to it at
  the head of the loop and after \<^verbatim>\<open>EXIT_SUCCESS\<close>, and shorter after an exit only when the
  exit follows a failed \<^verbatim>\<open>write\<close>. The streams hold these bytes and those of the commands;
  with silent commands they are the bytes written and the bytes read.
\<close>

theorem pass_through:
  assumes "parse_args program_name opts = Parsed config"
    and "getfl_ret su \<noteq> - 1" and "setfl_ret su \<noteq> - 1"
  shows "(list_all benign es \<and> list_ex is_eof_pass es \<longrightarrow>
            (\<exists>tr. main program_name opts su es = Exit EXIT_SUCCESS tr
               \<and> bytes_out tr = concat (map chunk_of (before_eof es))
               \<and> bytes_in tr = concat (map chunk_of (before_eof es))))
       \<and> (list_all benign es \<and> \<not> list_ex is_eof_pass es \<longrightarrow>
            (\<exists>st'. main program_name opts su es = Continue st'
               \<and> bytes_out (trace st') = concat (map chunk_of es)
               \<and> bytes_in (trace st') = concat (map chunk_of es)))
       \<and> (case main program_name opts su es' of
             Continue st' \<Rightarrow> bytes_out (trace st') = bytes_in (trace st')
           | Exit status tr \<Rightarrow>
               prefix (bytes_out tr) (bytes_in tr)
               \<and> (status = EXIT_SUCCESS \<longrightarrow> bytes_out tr = bytes_in tr)
               \<and> (bytes_out tr = bytes_in tr \<or> (tr \<noteq> [] \<and> last tr = Ev_perror ''write''))
           | In_write st' \<Rightarrow> prefix (bytes_out (trace st')) (bytes_in (trace st'))
           | Undefined \<Rightarrow> False)
       \<and> output_stream silent tr' = bytes_out tr'
       \<and> input_stream silent tr' = bytes_in tr'"
proof -
  have m: "main program_name opts su xs = main_loop config (initial_state su) xs" for xs
    using assms by (simp add: main_def)
  have s0: "\<not> eof_reached (initial_state su)" "bytes_out (trace (initial_state su)) = []"
      "bytes_in (trace (initial_state su)) = []"
    by (simp_all add: initial_state_def)
  have 1: "list_all benign es \<and> list_ex is_eof_pass es \<longrightarrow>
            (\<exists>tr. main program_name opts su es = Exit EXIT_SUCCESS tr
               \<and> bytes_out tr = concat (map chunk_of (before_eof es))
               \<and> bytes_in tr = concat (map chunk_of (before_eof es)))"
  proof (intro impI)
    assume h: "list_all benign es \<and> list_ex is_eof_pass es"
    then have b: "list_all benign es" and x: "list_ex is_eof_pass es" by simp_all
    from main_loop_benign [OF b s0(1), of config] x show "\<exists>tr.
        main program_name opts su es = Exit EXIT_SUCCESS tr
        \<and> bytes_out tr = concat (map chunk_of (before_eof es))
        \<and> bytes_in tr = concat (map chunk_of (before_eof es))"
      by (simp add: m s0)
  qed
  have 2: "list_all benign es \<and> \<not> list_ex is_eof_pass es \<longrightarrow>
            (\<exists>st'. main program_name opts su es = Continue st'
               \<and> bytes_out (trace st') = concat (map chunk_of es)
               \<and> bytes_in (trace st') = concat (map chunk_of es))"
  proof (intro impI)
    assume h: "list_all benign es \<and> \<not> list_ex is_eof_pass es"
    then have b: "list_all benign es" and x: "\<not> list_ex is_eof_pass es" by simp_all
    from main_loop_benign [OF b s0(1), of config] x show "\<exists>st'.
        main program_name opts su es = Continue st'
        \<and> bytes_out (trace st') = concat (map chunk_of es)
        \<and> bytes_in (trace st') = concat (map chunk_of es)"
      by (simp add: m s0)
  qed
  have "forwarded (main_loop config (initial_state su) es')"
    by (rule main_loop_forwarded) (simp add: s0)
  then have 3: "case main program_name opts su es' of
             Continue st' \<Rightarrow> bytes_out (trace st') = bytes_in (trace st')
           | Exit status tr \<Rightarrow>
               prefix (bytes_out tr) (bytes_in tr)
               \<and> (status = EXIT_SUCCESS \<longrightarrow> bytes_out tr = bytes_in tr)
               \<and> (bytes_out tr = bytes_in tr \<or> (tr \<noteq> [] \<and> last tr = Ev_perror ''write''))
           | In_write st' \<Rightarrow> prefix (bytes_out (trace st')) (bytes_in (trace st'))
           | Undefined \<Rightarrow> False"
    by (simp add: m forwarded_def)
  from 1 2 3 show ?thesis
    by (simp only: output_stream_silent input_stream_silent simp_thms)
qed

text \<open>
  The claim as first stated has nothing put into the output whatever the commands run.
  With \<^verbatim>\<open>-E 'echo done'\<close> the input \<open>hello\<close> and then end of stream leave \<open>hello\<close>, \<open>done\<close>
  and a newline on standard output: the command writes to the standard output it is
  given.
\<close>

theorem pass_through_counterexample:
  "main ''idlecat'' [(CHR ''E'', ''echo done'')] (started_at 10 10)
     [readable 10 (Read_ok ''hello'') [Write_ok 4096], readable 10 (Read_ok []) []]
   = Exit EXIT_SUCCESS
       [Ev_read (Read_ok ''hello''), Ev_write ''hello'', Ev_read (Read_ok []),
        Ev_system On_eof ''echo done''
          \<lparr>last_data_time = 10, state_start_time = 10, is_idle = False, eof_reached = True\<rparr>]
   \<and> output_stream echo_done
       [Ev_read (Read_ok ''hello''), Ev_write ''hello'', Ev_read (Read_ok []),
        Ev_system On_eof ''echo done''
          \<lparr>last_data_time = 10, state_start_time = 10, is_idle = False, eof_reached = True\<rparr>]
     = ''hellodone'' @ [CHR 0x0A]
   \<and> input_stream silent
       [Ev_read (Read_ok ''hello''), Ev_write ''hello'', Ev_read (Read_ok []),
        Ev_system On_eof ''echo done''
          \<lparr>last_data_time = 10, state_start_time = 10, is_idle = False, eof_reached = True\<rparr>]
     = ''hello''"
  by (simp add: main_def parse_args_def default_config_def run_defs iteration_def
      process_input_def data_observed_def eof_observed_def idle_check_def system_def Let_def
      DEFAULT_IDLE_TIMEOUT_def output_stream_def input_stream_def echo_done_def silent_def)

text \<open>
  A run to the end: \<open>hel\<close> and \<open>lo\<close> arrive in two chunks, the first written in two
  pieces after an interruption, with a pass without input between them, then end of
  stream; the chunk the environment holds after that is not read.
\<close>

theorem pass_through_witness:
  "parse_args ''idlecat'' [] = Parsed default_config
   \<and> list_all benign
       [readable 10 (Read_ok ''hel'') [Write_ok 1, Write_err EINTR, Write_ok 4096],
        timed_out 11,
        readable 11 (Read_ok ''lo'') [Write_ok 4096],
        readable 11 (Read_ok []) [],
        readable 12 (Read_ok ''more'') [Write_ok 4096]]
   \<and> concat (map chunk_of (before_eof
       [readable 10 (Read_ok ''hel'') [Write_ok 1, Write_err EINTR, Write_ok 4096],
        timed_out 11,
        readable 11 (Read_ok ''lo'') [Write_ok 4096],
        readable 11 (Read_ok []) [],
        readable 12 (Read_ok ''more'') [Write_ok 4096]])) = ''hello''
   \<and> main ''idlecat'' [] (started_at 10 10)
       [readable 10 (Read_ok ''hel'') [Write_ok 1, Write_err EINTR, Write_ok 4096],
        timed_out 11,
        readable 11 (Read_ok ''lo'') [Write_ok 4096],
        readable 11 (Read_ok []) [],
        readable 12 (Read_ok ''more'') [Write_ok 4096]]
     = Exit EXIT_SUCCESS
         [Ev_read (Read_ok ''hel''), Ev_write ''h'', Ev_write ''el'',
          Ev_read (Read_ok ''lo''), Ev_write ''lo'', Ev_read (Read_ok [])]
   \<and> bytes_out
         [Ev_read (Read_ok ''hel''), Ev_write ''h'', Ev_write ''el'',
          Ev_read (Read_ok ''lo''), Ev_write ''lo'', Ev_read (Read_ok [])] = ''hello''"
  using pass_through
    [where program_name = "''idlecat''" and opts = "[]" and config = default_config
       and su = "started_at 10 10"
       and es = "[readable 10 (Read_ok ''hel'') [Write_ok 1, Write_err EINTR, Write_ok 4096],
          timed_out 11,
          readable 11 (Read_ok ''lo'') [Write_ok 4096],
          readable 11 (Read_ok []) [],
          readable 12 (Read_ok ''more'') [Write_ok 4096]]"
       and es' = "[readable 10 (Read_ok ''hel'') [Write_ok 1, Write_err EINTR, Write_ok 4096],
          timed_out 11,
          readable 11 (Read_ok ''lo'') [Write_ok 4096],
          readable 11 (Read_ok []) [],
          readable 12 (Read_ok ''more'') [Write_ok 4096]]"
       and tr' = "[Ev_read (Read_ok ''hel''), Ev_write ''h'', Ev_write ''el'',
          Ev_read (Read_ok ''lo''), Ev_write ''lo'', Ev_read (Read_ok [])]"]
  by (simp add: main_def parse_args_def default_config_def run_defs iteration_def
      process_input_def data_observed_def eof_observed_def idle_check_def Let_def
      DEFAULT_IDLE_TIMEOUT_def benign_def input_ready_def is_eof_pass_def chunk_of_def)

subsection \<open>Data while idle (claim C3)\<close>

text \<open>
  Claim C3. A pass reads a chunk (not empty) while the state is Idle, and the write loop
  comes to its end in state \<open>stw\<close> (it has changed no variable of the loop). Then, for a
  positive idle timeout (as every accepted command line gives), the pass ends Active, with
  \<^verbatim>\<open>state_start_time\<close> and \<^verbatim>\<open>last_data_time\<close> both at the one clock reading of the pass,
  whatever the threshold. The idle-to-active command is run exactly when it is configured
  and the reading minus the old \<^verbatim>\<open>state_start_time\<close> reaches the threshold; the event
  carries the variables at the call: still Idle, and \<^verbatim>\<open>last_data_time\<close> still the old one.
\<close>

theorem idle_to_active_on_data:
  assumes "0 < select_ret e" and "fd_isset e" and "read_res e = Read_ok buffer" and "buffer \<noteq> []"
    and "write_loop buffer 0 (write_res e) (emit (Ev_read (read_res e)) st) = Continue stw"
    and "0 < idle_timeout config"
    and "is_idle st"
  shows "snapshot stw = snapshot st
     \<and> iteration config e st =
         Continue (stw\<lparr>is_idle := False, state_start_time := time_now e,
                       last_data_time := time_now e,
                       trace := trace stw @
                         (case idle_to_active_command config of
                            Some cmd \<Rightarrow>
                              if time_now e - state_start_time st \<ge> idle_to_active_threshold config
                              then [Ev_system Idle_to_active cmd (snapshot st)] else []
                          | None \<Rightarrow> [])\<rparr>)"
proof -
  have snap: "snapshot stw = snapshot st"
    using write_loop_Continue [OF assms(5)] by simp
  note f = snapshot_fields [OF snap]
  have "idle_check config (time_now e) (data_observed config (time_now e) stw)
        = data_observed config (time_now e) stw"
    by (rule idle_check_just_fed [OF assms(6)]) (simp add: data_observed_def Let_def)
  moreover have "data_observed config (time_now e) stw =
      stw\<lparr>is_idle := False, state_start_time := time_now e, last_data_time := time_now e,
          trace := trace stw @
            (case idle_to_active_command config of
               Some cmd \<Rightarrow>
                 if time_now e - state_start_time st \<ge> idle_to_active_threshold config
                 then [Ev_system Idle_to_active cmd (snapshot st)] else []
             | None \<Rightarrow> [])\<rparr>"
    using assms(7) f snap
    by (simp add: data_observed_def Let_def system_def emit_def split: option.splits)
  ultimately show ?thesis
    using assms(1-5) snap by (simp add: iteration_def process_input_def Let_def)
qed

text \<open>
  The scenario of the specification: idle since 10, threshold 2, \<open>hello\<close> arrives at 13.
\<close>

theorem idle_to_active_on_data_witness:
  "iteration scenario_config (readable 13 (Read_ok ''hello'') [Write_ok 4096])
     (initial_state (started_at 10 10))
   = Continue
       \<lparr>last_data_time = 13, state_start_time = 13, is_idle = False, eof_reached = False,
        trace = [Ev_read (Read_ok ''hello''), Ev_write ''hello'',
                 Ev_system Idle_to_active ''touch /tmp/marker''
                   \<lparr>last_data_time = 10, state_start_time = 10, is_idle = True,
                    eof_reached = False\<rparr>]\<rparr>"
  using idle_to_active_on_data
    [where e = "readable 13 (Read_ok ''hello'') [Write_ok 4096]" and buffer = "''hello''"
       and st = "initial_state (started_at 10 10)" and config = scenario_config
       and stw = "\<lparr>last_data_time = 10, state_start_time = 10, is_idle = True,
                   eof_reached = False,
                   trace = [Ev_read (Read_ok ''hello''), Ev_write ''hello'']\<rparr>"]
  by (simp add: run_defs)

subsection \<open>Data while active (claim C10)\<close>

text \<open>
  Claim C10. A pass reads a chunk (not empty) while the state is Active, and the write
  loop comes to its end. Then, for a positive idle timeout, the pass changes one variable
  of the loop, \<^verbatim>\<open>last_data_time\<close>, which becomes the clock reading of the pass; the trace
  grows by the read and the writes of the chunk and by no call of \<^verbatim>\<open>system\<close>. The
  configuration is an argument of the pass and is not part of the state it returns.
\<close>

theorem data_while_active:
  assumes "0 < select_ret e" and "fd_isset e" and "read_res e = Read_ok buffer" and "buffer \<noteq> []"
    and "write_loop buffer 0 (write_res e) (emit (Ev_read (read_res e)) st) = Continue stw"
    and "0 < idle_timeout config"
    and "\<not> is_idle st"
  shows "\<exists>ws. concat ws = buffer
     \<and> iteration config e st =
         Continue (st\<lparr>last_data_time := time_now e,
                      trace := trace st @ Ev_read (Read_ok buffer) # map Ev_write ws\<rparr>)"
proof -
  from write_loop_Continue [OF assms(5)] obtain ws where ws:
    "snapshot stw = snapshot st" "concat ws = buffer"
    "trace stw = trace st @ Ev_read (Read_ok buffer) # map Ev_write ws"
    using assms(3) by auto
  note f = snapshot_fields [OF ws(1)]
  let ?st' = "st\<lparr>last_data_time := time_now e,
                  trace := trace st @ Ev_read (Read_ok buffer) # map Ev_write ws\<rparr>"
  have "data_observed config (time_now e) stw = ?st'"
    using assms(7) f ws(3)
    by (intro state_eq_snapshot) (simp_all add: data_observed_def Let_def snapshot_def)
  moreover have "idle_check config (time_now e) ?st' = ?st'"
    by (rule idle_check_just_fed [OF assms(6)]) simp
  ultimately have "iteration config e st = Continue ?st'"
    using assms(1-5) by (simp add: iteration_def process_input_def Let_def)
  with ws(2) show ?thesis by blast
qed

text \<open>Active since 10, two more bytes arrive in the same second.\<close>

theorem data_while_active_witness:
  "iteration scenario_config (readable 10 (Read_ok ''yz'') [Write_ok 1, Write_ok 1])
     (active_since 10)
   = Continue
       \<lparr>last_data_time = 10, state_start_time = 10, is_idle = False, eof_reached = False,
        trace = [Ev_read (Read_ok ''x''), Ev_write ''x'',
                 Ev_read (Read_ok ''yz''), Ev_write ''y'', Ev_write ''z'']\<rparr>"
  using data_while_active
    [where e = "readable 10 (Read_ok ''yz'') [Write_ok 1, Write_ok 1]" and buffer = "''yz''"
       and st = "active_since 10" and config = scenario_config
       and stw = "\<lparr>last_data_time = 10, state_start_time = 10, is_idle = False,
                   eof_reached = False,
                   trace = [Ev_read (Read_ok ''x''), Ev_write ''x'',
                            Ev_read (Read_ok ''yz''), Ev_write ''y'', Ev_write ''z'']\<rparr>"]
  by (simp add: run_defs iteration_def process_input_def data_observed_def idle_check_def Let_def)

subsection \<open>The check for idleness (claim C4)\<close>

text \<open>
  Claim C4. Every pass that comes to its end has run the check on the state \<open>st1\<close> that
  the input part of the pass left (the state at the head of the loop when nothing was
  readable). If \<open>st1\<close> is Active and the clock reading minus its \<^verbatim>\<open>last_data_time\<close> reaches
  the idle timeout, the pass ends Idle with \<^verbatim>\<open>state_start_time\<close> at the clock reading,
  whatever the threshold; the active-to-idle command is run exactly when it is configured
  and the reading minus the \<^verbatim>\<open>state_start_time\<close> of \<open>st1\<close> reaches the threshold, and the
  event carries the variables at the call: still Active, with the old
  \<^verbatim>\<open>state_start_time\<close>. Otherwise the check changes nothing.
\<close>

theorem active_to_idle_on_timeout:
  assumes "iteration config e st = Continue st'"
  shows "\<exists>st1. (if 0 < select_ret e \<and> fd_isset e
               then process_input config e (time_now e) st else Continue st) = Continue st1
     \<and> (if \<not> is_idle st1 \<and> idle_timeout config \<le> time_now e - last_data_time st1
        then st' = st1\<lparr>is_idle := True, state_start_time := time_now e,
                  trace := trace st1 @
                    (case active_to_idle_command config of
                       Some cmd \<Rightarrow>
                         if active_to_idle_threshold config \<le> time_now e - state_start_time st1
                         then [Ev_system Active_to_idle cmd (snapshot st1)] else []
                     | None \<Rightarrow> [])\<rparr>
        else st' = st1)"
proof -
  let ?r = "if 0 < select_ret e \<and> fd_isset e
            then process_input config e (time_now e) st else Continue st"
  from assms obtain st1 where st1: "?r = Continue st1"
      and st': "st' = idle_check config (time_now e) st1"
    by (cases ?r) (auto simp: iteration_def Let_def split: if_splits)
  show ?thesis
    by (rule exI [of _ st1]) (simp add: st1 st' idle_check_eq [of config "time_now e" st1])
qed

text \<open>Active since 10, timeout 1, threshold 2: \<^verbatim>\<open>select\<close> times out at 12.\<close>

theorem active_to_idle_on_timeout_witness:
  "iteration scenario_config (timed_out 12) (active_since 10)
   = Continue
       \<lparr>last_data_time = 10, state_start_time = 12, is_idle = True, eof_reached = False,
        trace = [Ev_read (Read_ok ''x''), Ev_write ''x'',
                 Ev_system Active_to_idle ''rm /tmp/marker''
                   \<lparr>last_data_time = 10, state_start_time = 10, is_idle = False,
                    eof_reached = False\<rparr>]\<rparr>"
  using active_to_idle_on_timeout
    [where e = "timed_out 12" and st = "active_since 10" and config = scenario_config
       and st' = "\<lparr>last_data_time = 10, state_start_time = 12, is_idle = True,
                   eof_reached = False,
                   trace = [Ev_read (Read_ok ''x''), Ev_write ''x'',
                     Ev_system Active_to_idle ''rm /tmp/marker''
                       \<lparr>last_data_time = 10, state_start_time = 10, is_idle = False,
                        eof_reached = False\<rparr>]\<rparr>"]
  by (simp add: run_defs iteration_def idle_check_def system_def Let_def)

subsection \<open>Read errors (claim C8)\<close>

text \<open>
  Claim C8. The input is readable and \<^verbatim>\<open>read\<close> fails. With \<^verbatim>\<open>EAGAIN\<close> or \<^verbatim>\<open>EWOULDBLOCK\<close>
  the pass comes to its end, with the variables a pass without input at the same clock
  reading would leave; \<^verbatim>\<open>last_data_time\<close> is unchanged, an Idle state stays Idle with its
  \<^verbatim>\<open>state_start_time\<close>, and nothing is written to the error stream. With any other error the process exits at once with \<^verbatim>\<open>EXIT_FAILURE\<close>, after
  \<^verbatim>\<open>perror("read")\<close>.
\<close>

theorem read_would_block:
  assumes "0 < select_ret e" and "fd_isset e" and "read_res e = Read_err en"
  shows "(en = EAGAIN \<or> en = EWOULDBLOCK \<longrightarrow>
          (\<exists>st' st''. iteration config e st = Continue st'
             \<and> iteration config (e\<lparr>select_ret := 0\<rparr>) st = Continue st''
             \<and> snapshot st' = snapshot st''
             \<and> last_data_time st' = last_data_time st
             \<and> (is_idle st \<longrightarrow> is_idle st' \<and> state_start_time st' = state_start_time st)
             \<and> (\<forall>s. Ev_perror s \<in> set (trace st') \<longrightarrow> Ev_perror s \<in> set (trace st))
             \<and> (\<forall>s. Ev_stderr s \<in> set (trace st') \<longrightarrow> Ev_stderr s \<in> set (trace st))))
       \<and> (en \<noteq> EAGAIN \<and> en \<noteq> EWOULDBLOCK \<longrightarrow>
          iteration config e st
            = Exit EXIT_FAILURE (trace st @ [Ev_read (Read_err en), Ev_perror ''read'']))"
proof (intro conjI impI)
  assume wb: "en = EAGAIN \<or> en = EWOULDBLOCK"
  let ?st' = "idle_check config (time_now e) (emit (Ev_read (Read_err en)) st)"
  let ?st'' = "idle_check config (time_now e) st"
  have 1: "iteration config e st = Continue ?st'"
    using assms wb by (auto simp: iteration_def process_input_def Let_def)
  have 2: "iteration config (e\<lparr>select_ret := 0\<rparr>) st = Continue ?st''"
    by (simp add: iteration_def Let_def)
  have 3: "snapshot ?st' = snapshot ?st''"
    by (rule snapshot_idle_check_emit)
  have 4: "last_data_time ?st' = last_data_time st"
    by (simp add: emit_def)
  have 7: "is_idle st \<longrightarrow> is_idle ?st' \<and> state_start_time ?st' = state_start_time st"
    by (simp add: idle_check_eq emit_def)
  have 5: "\<forall>s. Ev_perror s \<in> set (trace ?st') \<longrightarrow> Ev_perror s \<in> set (trace st)"
    by (auto simp: idle_check_eq split: option.splits if_splits)
  have 6: "\<forall>s. Ev_stderr s \<in> set (trace ?st') \<longrightarrow> Ev_stderr s \<in> set (trace st)"
    by (auto simp: idle_check_eq split: option.splits if_splits)
  from 1 2 3 4 5 6 7 show "\<exists>st' st''. iteration config e st = Continue st'
             \<and> iteration config (e\<lparr>select_ret := 0\<rparr>) st = Continue st''
             \<and> snapshot st' = snapshot st''
             \<and> last_data_time st' = last_data_time st
             \<and> (is_idle st \<longrightarrow> is_idle st' \<and> state_start_time st' = state_start_time st)
             \<and> (\<forall>s. Ev_perror s \<in> set (trace st') \<longrightarrow> Ev_perror s \<in> set (trace st))
             \<and> (\<forall>s. Ev_stderr s \<in> set (trace st') \<longrightarrow> Ev_stderr s \<in> set (trace st))"
    by blast
next
  assume "en \<noteq> EAGAIN \<and> en \<noteq> EWOULDBLOCK"
  with assms show "iteration config e st
      = Exit EXIT_FAILURE (trace st @ [Ev_read (Read_err en), Ev_perror ''read''])"
    by (simp add: iteration_def process_input_def Let_def perror_def)
qed

text \<open>\<^verbatim>\<open>EAGAIN\<close>, and \<^verbatim>\<open>EIO\<close>.\<close>

theorem read_would_block_witness:
  "iteration scenario_config (readable 10 (Read_err EAGAIN) []) (active_since 10)
   = Continue
       \<lparr>last_data_time = 10, state_start_time = 10, is_idle = False, eof_reached = False,
        trace = [Ev_read (Read_ok ''x''), Ev_write ''x'', Ev_read (Read_err EAGAIN)]\<rparr>
   \<and> iteration scenario_config (readable 10 (Read_err EIO) []) (active_since 10)
   = Exit EXIT_FAILURE
       [Ev_read (Read_ok ''x''), Ev_write ''x'', Ev_read (Read_err EIO), Ev_perror ''read'']"
  using
    read_would_block
      [where e = "readable 10 (Read_err EAGAIN) []" and en = EAGAIN
         and st = "active_since 10" and config = scenario_config]
    read_would_block
      [where e = "readable 10 (Read_err EIO) []" and en = EIO
         and st = "active_since 10" and config = scenario_config]
  by (simp add: run_defs iteration_def process_input_def idle_check_def Let_def)

subsection \<open>State and entry time (claim C9)\<close>

text \<open>
  Claim C9. In each of the two blocks that assign \<^verbatim>\<open>is_idle\<close>, a change of the flag sets
  \<^verbatim>\<open>state_start_time\<close> to the clock reading, and \<^verbatim>\<open>state_start_time\<close> changes only when the
  flag does; the end-of-stream block touches neither. The same holds from the head of the
  loop to the end of a pass, from every state, for a positive idle timeout.
\<close>

theorem state_and_entry_time_change_together:
  "(is_idle (data_observed config t st) \<noteq> is_idle st
      \<longrightarrow> state_start_time (data_observed config t st) = t)
   \<and> (state_start_time (data_observed config t st) \<noteq> state_start_time st
      \<longrightarrow> is_idle (data_observed config t st) \<noteq> is_idle st)
   \<and> (is_idle (idle_check config t st) \<noteq> is_idle st
      \<longrightarrow> state_start_time (idle_check config t st) = t)
   \<and> (state_start_time (idle_check config t st) \<noteq> state_start_time st
      \<longrightarrow> is_idle (idle_check config t st) \<noteq> is_idle st)
   \<and> is_idle (eof_observed config st) = is_idle st
   \<and> state_start_time (eof_observed config st) = state_start_time st
   \<and> (0 < idle_timeout config \<and> iteration config e st = Continue st' \<longrightarrow>
        (is_idle st' \<noteq> is_idle st \<longrightarrow> state_start_time st' = time_now e)
      \<and> (state_start_time st' \<noteq> state_start_time st \<longrightarrow> is_idle st' \<noteq> is_idle st))"
proof -
  have blocks:
    "is_idle (data_observed config t st) \<noteq> is_idle st
       \<longrightarrow> state_start_time (data_observed config t st) = t"
    "state_start_time (data_observed config t st) \<noteq> state_start_time st
       \<longrightarrow> is_idle (data_observed config t st) \<noteq> is_idle st"
    "is_idle (idle_check config t st) \<noteq> is_idle st
       \<longrightarrow> state_start_time (idle_check config t st) = t"
    "state_start_time (idle_check config t st) \<noteq> state_start_time st
       \<longrightarrow> is_idle (idle_check config t st) \<noteq> is_idle st"
    "is_idle (eof_observed config st) = is_idle st"
    "state_start_time (eof_observed config st) = state_start_time st"
    by (simp_all add: data_observed_eq idle_check_eq eof_observed_eq)
  have pass: "(is_idle st' \<noteq> is_idle st \<longrightarrow> state_start_time st' = time_now e)
      \<and> (state_start_time st' \<noteq> state_start_time st \<longrightarrow> is_idle st' \<noteq> is_idle st)"
    if pos: "0 < idle_timeout config" and it: "iteration config e st = Continue st'"
  proof -
    let ?r = "if 0 < select_ret e \<and> fd_isset e
              then process_input config e (time_now e) st else Continue st"
    from it obtain st1 where st1: "?r = Continue st1"
        and st': "st' = idle_check config (time_now e) st1"
      by (cases ?r) (auto simp: iteration_def Let_def split: if_splits)
    have "(is_idle st1 = is_idle st \<and> state_start_time st1 = state_start_time st)
       \<or> (is_idle st \<and> \<not> is_idle st1 \<and> state_start_time st1 = time_now e
            \<and> last_data_time st1 = time_now e)"
      using st1 process_input_vars [of config e "time_now e" st st1]
      by (auto split: if_splits)
    then show ?thesis
    proof
      assume "is_idle st1 = is_idle st \<and> state_start_time st1 = state_start_time st"
      then show ?thesis by (simp add: st' idle_check_eq)
    next
      assume fed: "is_idle st \<and> \<not> is_idle st1 \<and> state_start_time st1 = time_now e
            \<and> last_data_time st1 = time_now e"
      with pos have "st' = st1" by (simp add: st' idle_check_just_fed)
      with fed show ?thesis by simp
    qed
  qed
  from blocks pass show ?thesis by blast
qed

text \<open>The pass that goes idle at 12, and the two blocks on their own.\<close>

theorem state_and_entry_time_change_together_witness:
  "iteration scenario_config (timed_out 12) (active_since 10)
   = Continue
       \<lparr>last_data_time = 10, state_start_time = 12, is_idle = True, eof_reached = False,
        trace = [Ev_read (Read_ok ''x''), Ev_write ''x'',
                 Ev_system Active_to_idle ''rm /tmp/marker''
                   \<lparr>last_data_time = 10, state_start_time = 10, is_idle = False,
                    eof_reached = False\<rparr>]\<rparr>
   \<and> is_idle (idle_check scenario_config 12 (active_since 10)) \<noteq> is_idle (active_since 10)
   \<and> state_start_time (idle_check scenario_config 12 (active_since 10)) = 12
   \<and> is_idle (data_observed scenario_config 13 (initial_state (started_at 10 10)))
       \<noteq> is_idle (initial_state (started_at 10 10))
   \<and> state_start_time (data_observed scenario_config 13 (initial_state (started_at 10 10))) = 13"
  using state_and_entry_time_change_together
    [where e = "timed_out 12" and st = "active_since 10" and config = scenario_config
       and t = 12
       and st' = "\<lparr>last_data_time = 10, state_start_time = 12, is_idle = True,
                   eof_reached = False,
                   trace = [Ev_read (Read_ok ''x''), Ev_write ''x'',
                     Ev_system Active_to_idle ''rm /tmp/marker''
                       \<lparr>last_data_time = 10, state_start_time = 10, is_idle = False,
                        eof_reached = False\<rparr>]\<rparr>"]
    state_and_entry_time_change_together
    [where e = "timed_out 12" and st = "initial_state (started_at 10 10)"
       and config = scenario_config and t = 13]
  by (simp add: run_defs iteration_def idle_check_def data_observed_def system_def Let_def)

subsection \<open>End of stream (claim C1)\<close>

lemma eof_tail_shape:
  "\<not> list_ex is_read_or_write (eof_tail config t st)
   \<and> eof_actions (eof_tail config t st)
       = (case eof_command config of None \<Rightarrow> 0 | Some cmd \<Rightarrow> 1)"
  by (cases "eof_command config"; cases "active_to_idle_command config")
     (simp_all add: eof_tail_def)

lemma eof_pass:
  assumes "0 < select_ret e" and "fd_isset e" and "read_res e = Read_ok []"
  shows "\<exists>st'. iteration config e st = Continue st' \<and> eof_reached st'
     \<and> trace st' = trace st @ Ev_read (Read_ok []) # eof_tail config (time_now e) st"
proof -
  let ?st1 = "eof_observed config (emit (Ev_read (Read_ok [])) st)"
  have 1: "iteration config e st = Continue (idle_check config (time_now e) ?st1)"
    using assms by (simp add: iteration_def process_input_def Let_def)
  have 2: "eof_reached (idle_check config (time_now e) ?st1)"
    by (simp add: eof_observed_eq)
  have 3: "trace (idle_check config (time_now e) ?st1)
      = trace st @ Ev_read (Read_ok []) # eof_tail config (time_now e) st"
    by (simp add: idle_check_eq eof_observed_eq eof_tail_def emit_def snapshot_def
        split: option.splits)
  from 1 2 3 show ?thesis by simp
qed

lemma main_loop_after_eof:
  "eof_reached st \<Longrightarrow> main_loop config st es = Exit EXIT_SUCCESS (trace st)"
  by (cases es) simp_all

lemma process_input_eof_reached:
  assumes "process_input config e t st = Continue st1" and "\<not> eof_reached st"
  shows "if eof_reached st1 then read_res e = Read_ok []
         else \<exists>tr. trace st1 = trace st @ tr \<and> \<not> list_ex is_eof_read tr
                \<and> \<not> list_ex is_eof_action tr"
proof (cases "read_res e")
  case (Read_err en)
  with assms show ?thesis
    by (auto simp: process_input_def Let_def emit_def split: if_splits)
next
  case (Read_ok buffer)
  show ?thesis
  proof (cases "buffer = []")
    case True
    with Read_ok assms show ?thesis
      by (auto simp: process_input_def Let_def emit_def eof_observed_eq)
  next
    case False
    with Read_ok assms obtain st0 where
      w: "write_loop buffer 0 (write_res e) (emit (Ev_read (read_res e)) st) = Continue st0"
      and st1: "st1 = data_observed config t st0"
      by (auto simp: process_input_def Let_def split: outcome.splits)
    from write_loop_Continue [OF w] obtain ws where ws:
      "snapshot st0 = snapshot st"
      "trace st0 = trace st @ Ev_read (Read_ok buffer) # map Ev_write ws"
      using Read_ok by auto
    have nw: "\<not> list_ex is_eof_read (map Ev_write ws)" "\<not> list_ex is_eof_action (map Ev_write ws)"
      by (induction ws) simp_all
    from snapshot_fields [OF ws(1)] assms(2) have "\<not> eof_reached st1"
      by (simp add: st1 data_observed_eq)
    moreover have "\<exists>tr. trace st1 = trace st @ tr \<and> \<not> list_ex is_eof_read tr
                \<and> \<not> list_ex is_eof_action tr"
      using ws(2) nw False
      by (auto simp: st1 data_observed_eq list_ex_iff split: option.splits)
    ultimately show ?thesis by simp
  qed
qed

lemma iteration_eof_reached:
  assumes "iteration config e st = Continue st'" and "\<not> eof_reached st"
  shows "if eof_reached st'
         then 0 < select_ret e \<and> fd_isset e \<and> read_res e = Read_ok []
         else \<exists>tr. trace st' = trace st @ tr \<and> \<not> list_ex is_eof_read tr
                \<and> \<not> list_ex is_eof_action tr"
proof -
  let ?r = "if 0 < select_ret e \<and> fd_isset e
            then process_input config e (time_now e) st else Continue st"
  from assms obtain st1 where st1: "?r = Continue st1"
      and st': "st' = idle_check config (time_now e) st1"
    by (cases ?r) (auto simp: iteration_def Let_def split: if_splits)
  have tr': "\<exists>tr. trace st' = trace st1 @ tr \<and> \<not> list_ex is_eof_read tr
                \<and> \<not> list_ex is_eof_action tr"
    by (simp add: st' idle_check_eq split: option.splits)
  show ?thesis
  proof (cases "0 < select_ret e \<and> fd_isset e")
    case False
    with st1 have "st1 = st" by simp
    with tr' assms(2) show ?thesis by (simp add: st')
  next
    case True
    with st1 have "process_input config e (time_now e) st = Continue st1" by simp
    from process_input_eof_reached [OF this assms(2)] tr' True show ?thesis
      by (auto simp: st' list_ex_iff)
  qed
qed

lemma iteration_Exit_failure:
  "iteration config e st = Exit status tr \<Longrightarrow> status = EXIT_FAILURE"
proof -
  have w: "write_loop buffer bw rs s = Exit status tr \<Longrightarrow> status = EXIT_FAILURE"
    for buffer bw rs s
    by (induction rs arbitrary: bw s)
       (auto simp: Let_def split: if_splits write_result.splits)
  have p: "process_input config e t st = Exit status tr \<Longrightarrow> status = EXIT_FAILURE" for t
    by (auto simp: process_input_def Let_def split: read_result.splits if_splits outcome.splits
        dest: w)
  show "iteration config e st = Exit status tr \<Longrightarrow> status = EXIT_FAILURE"
    by (auto simp: iteration_def Let_def split: if_splits outcome.splits dest: p)
qed

lemma main_loop_success:
  "\<not> eof_reached st \<Longrightarrow> main_loop config st es = Exit EXIT_SUCCESS tr \<Longrightarrow>
   \<exists>pre t st1. tr = trace st @ pre @ Ev_read (Read_ok []) # eof_tail config t st1
      \<and> \<not> list_ex is_eof_read pre \<and> \<not> list_ex is_eof_action pre"
proof (induction es arbitrary: st)
  case Nil
  then show ?case by simp
next
  case (Cons e es)
  show ?case
  proof (cases "iteration config e st")
    case (Continue st')
    show ?thesis
    proof (cases "eof_reached st'")
      case True
      with iteration_eof_reached [OF Continue Cons.prems(1)]
      have r: "0 < select_ret e" "fd_isset e" "read_res e = Read_ok []" by simp_all
      from eof_pass [OF r, of config st] Continue
      have "trace st' = trace st @ Ev_read (Read_ok []) # eof_tail config (time_now e) st"
        by simp
      moreover have "tr = trace st'"
        using Cons.prems Continue True by (simp add: main_loop_after_eof)
      ultimately show ?thesis
        by (intro exI [of _ "[]"] exI [of _ "time_now e"] exI [of _ st]) simp
    next
      case False
      with iteration_eof_reached [OF Continue Cons.prems(1)] obtain tr0 where tr0:
        "trace st' = trace st @ tr0" "\<not> list_ex is_eof_read tr0" "\<not> list_ex is_eof_action tr0"
        by auto
      have "main_loop config st' es = Exit EXIT_SUCCESS tr"
        using Cons.prems Continue by simp
      from Cons.IH [OF False this] obtain pre t st1 where
        "tr = trace st' @ pre @ Ev_read (Read_ok []) # eof_tail config t st1"
        "\<not> list_ex is_eof_read pre" "\<not> list_ex is_eof_action pre"
        by blast
      with tr0 show ?thesis
        by (intro exI [of _ "tr0 @ pre"] exI [of _ t] exI [of _ st1]) (auto simp: list_ex_iff)
    qed
  next
    case (Exit status tr')
    with Cons.prems iteration_Exit_failure [OF Exit] show ?thesis
      by (simp add: EXIT_SUCCESS_def EXIT_FAILURE_def)
  next
    case (In_write st')
    with Cons.prems show ?thesis by simp
  next
    case Undefined
    with Cons.prems show ?thesis by simp
  qed
qed

text \<open>
  Claim C1, as the code has it. From a state not at end of stream: a pass whose read
  returns no byte ends the run with \<^verbatim>\<open>EXIT_SUCCESS\<close>, whatever the environment would give
  afterwards (\<open>es\<close> is not looked at), and after the read the trace holds \<open>eof_tail\<close> only.
  Every run that ends with \<^verbatim>\<open>EXIT_SUCCESS\<close> has this shape: a part without end-of-stream
  read and without EOF command, the end-of-stream read, an \<open>eof_tail\<close>. An \<open>eof_tail\<close>
  holds no read and no write, and the EOF command once if it is configured, never
  otherwise. It may hold one more event: the check for idleness still runs in the pass
  that read end of stream, so the state may go from Active to Idle and the active-to-idle
  command may run after the EOF command.
\<close>

theorem eof_is_terminal:
  assumes "\<not> eof_reached st"
  shows "(0 < select_ret e \<and> fd_isset e \<and> read_res e = Read_ok [] \<longrightarrow>
            main_loop config st (e # es)
              = Exit EXIT_SUCCESS
                  (trace st @ Ev_read (Read_ok []) # eof_tail config (time_now e) st))
       \<and> (main_loop config st es' = Exit EXIT_SUCCESS tr \<longrightarrow>
            (\<exists>pre t st1. tr = trace st @ pre @ Ev_read (Read_ok []) # eof_tail config t st1
                \<and> \<not> list_ex is_eof_read pre \<and> \<not> list_ex is_eof_action pre))
       \<and> \<not> list_ex is_read_or_write (eof_tail config t' st')
       \<and> eof_actions (eof_tail config t' st')
            = (case eof_command config of None \<Rightarrow> 0 | Some cmd \<Rightarrow> 1)"
proof (intro conjI impI)
  assume r: "0 < select_ret e \<and> fd_isset e \<and> read_res e = Read_ok []"
  then obtain st2 where st2: "iteration config e st = Continue st2" "eof_reached st2"
      "trace st2 = trace st @ Ev_read (Read_ok []) # eof_tail config (time_now e) st"
    using eof_pass [of e config st] by auto
  then show "main_loop config st (e # es)
      = Exit EXIT_SUCCESS (trace st @ Ev_read (Read_ok []) # eof_tail config (time_now e) st)"
    using assms by (simp add: main_loop_after_eof)
next
  assume "main_loop config st es' = Exit EXIT_SUCCESS tr"
  from main_loop_success [OF assms this]
  show "\<exists>pre t st1. tr = trace st @ pre @ Ev_read (Read_ok []) # eof_tail config t st1
      \<and> \<not> list_ex is_eof_read pre \<and> \<not> list_ex is_eof_action pre" .
qed (simp_all add: eof_tail_shape)

text \<open>
  The claim as first stated has no transition after end of stream. A byte is read at 10,
  \<^verbatim>\<open>select\<close> times out at 11 to 14, end of stream is read at 15, with the idle timeout 5:
  the active-to-idle command runs after the EOF command, and the pass ends Idle.
\<close>

theorem eof_is_terminal_counterexample:
  "main ''idlecat'' [(CHR ''a'', ''5''), (CHR ''A'', ''notify''), (CHR ''E'', ''bye'')]
     (started_at 10 10)
     [readable 10 (Read_ok ''x'') [Write_ok 4096],
      timed_out 11, timed_out 12, timed_out 13, timed_out 14,
      readable 15 (Read_ok []) []]
   = Exit EXIT_SUCCESS
       [Ev_read (Read_ok ''x''), Ev_write ''x'', Ev_read (Read_ok []),
        Ev_system On_eof ''bye''
          \<lparr>last_data_time = 10, state_start_time = 10, is_idle = False, eof_reached = True\<rparr>,
        Ev_system Active_to_idle ''notify''
          \<lparr>last_data_time = 10, state_start_time = 10, is_idle = False, eof_reached = True\<rparr>]
   \<and> iteration default_config (readable 15 (Read_ok []) []) (active_since 10)
   = Continue
       \<lparr>last_data_time = 10, state_start_time = 15, is_idle = True, eof_reached = True,
        trace = [Ev_read (Read_ok ''x''), Ev_write ''x'', Ev_read (Read_ok [])]\<rparr>"
  by (simp add: main_def parse_args_def default_config_def atoi_def atoi_value_def
      isspace_def isdigit_def INT_MIN_def INT_MAX_def run_defs iteration_def
      process_input_def data_observed_def eof_observed_def idle_check_def system_def Let_def
      DEFAULT_IDLE_TIMEOUT_def DEFAULT_IDLE_TO_ACTIVE_THRESHOLD_def
      DEFAULT_ACTIVE_TO_IDLE_THRESHOLD_def)

text \<open>End of stream at 12; the bytes the environment would still give are not read.\<close>

theorem eof_is_terminal_witness:
  "main_loop scenario_config (active_since 10)
     [readable 12 (Read_ok []) [], readable 13 (Read_ok ''more'') [Write_ok 4096]]
   = Exit EXIT_SUCCESS
       [Ev_read (Read_ok ''x''), Ev_write ''x'', Ev_read (Read_ok []),
        Ev_system On_eof ''echo done''
          \<lparr>last_data_time = 10, state_start_time = 10, is_idle = False, eof_reached = True\<rparr>,
        Ev_system Active_to_idle ''rm /tmp/marker''
          \<lparr>last_data_time = 10, state_start_time = 10, is_idle = False, eof_reached = True\<rparr>]"
  using eof_is_terminal
    [where st = "active_since 10" and e = "readable 12 (Read_ok []) []"
       and es = "[readable 13 (Read_ok ''more'') [Write_ok 4096]]"
       and config = scenario_config
       and es' = "[readable 12 (Read_ok []) []]"
       and tr = "[Ev_read (Read_ok ''x''), Ev_write ''x'', Ev_read (Read_ok []),
          Ev_system On_eof ''echo done''
            \<lparr>last_data_time = 10, state_start_time = 10, is_idle = False, eof_reached = True\<rparr>,
          Ev_system Active_to_idle ''rm /tmp/marker''
            \<lparr>last_data_time = 10, state_start_time = 10, is_idle = False,
             eof_reached = True\<rparr>]"
       and t' = 12 and st' = "active_since 10"]
  by (simp add: run_defs eof_tail_def)

end
